theory Spec2Isabelle
  imports Main "HOL-Library.Word"
begin

unbundle bit_operations_syntax

section \<open>Machine types\<close>

text \<open>
  The release build targets amd64, where Go's \<open>int\<close> has 64 bits. A value of type \<open>int\<close>
  is a 64-bit word read in two's complement (\<open>sint\<close>); the conversions \<open>uint64(x)\<close> of an
  \<open>int\<close> keep the bits, \<open>uint16(x)\<close> keeps the low 16 bits (\<open>ucast\<close>).
\<close>

type_synonym go_int = "64 word"
type_synonym uint64 = "64 word"
type_synonym uint16 = "16 word"
type_synonym byte = "8 word"

datatype errno = ENOENT | ENOTDIR | EEXIST | EACCES | EISDIR | EBADF | EIO

datatype error =
    PortNotInRange go_int          \<comment> \<open>\<open>fmt.Errorf("Port not in range: %v", args.Port)\<close>\<close>
  | S3PortNotInRange go_int        \<comment> \<open>\<open>fmt.Errorf("S3 Port not in range: %v", args.S3Port)\<close>\<close>
  | BadSizeSpecifier string        \<comment> \<open>\<open>fmt.Errorf("Bad size specifier: %v", args.Size)\<close>\<close>
  | FileHasWrongSize nat int       \<comment> \<open>\<open>fmt.Errorf("File has wrong size: expected %v, but got %v", ...)\<close>\<close>
  | ErrSyntax                      \<comment> \<open>\<open>strconv.ErrSyntax\<close>\<close>
  | ErrRange                       \<comment> \<open>\<open>strconv.ErrRange\<close>\<close>
  | PathError errno                \<comment> \<open>an error of the operating system\<close>
  | SliceBoundsOutOfRange          \<comment> \<open>the run-time panic of a slice expression\<close>
  | OtherError string              \<comment> \<open>any other error value\<close>

section \<open>main.go: the command line arguments\<close>

record Arguments =
  Server :: bool
  S3 :: bool
  Rados :: bool
  Run :: bool
  Verbose :: bool
  Port :: go_int
  Size :: string
  Objects :: go_int
  Servers :: string
  RunTime :: go_int
  RampUp :: go_int
  RampDown :: go_int
  JsonOutput :: string
  Targets :: "string list"
  S3AccessKey :: string
  S3SecretKey :: string
  S3Bucket :: string
  S3Port :: go_int
  CephPool :: string
  CephUser :: string
  CephKey :: string
  Bucket :: string
  SizeInBytes :: uint64

subsection \<open>The library functions that \<open>validateArguments\<close> calls\<close>

definition is_digit :: "char \<Rightarrow> bool" where
  "is_digit c = (c \<in> set ''0123456789'')"

definition is_nonzero_digit :: "char \<Rightarrow> bool" where
  "is_nonzero_digit c = (c \<in> set ''123456789'')"

definition is_unit :: "char \<Rightarrow> bool" where
  "is_unit c = (c \<in> set ''kKmM'')"

text \<open>
  The pattern \<open>([1-9][0-9]*)([kKmM])\<close> tried at the start of a string. The digits are
  taken greedily; giving some of them back cannot help, since the character after a
  shorter run is a digit and not a unit letter. The result is what Go returns for a
  match: the whole match, then the two groups.
\<close>

fun re_match_here :: "string \<Rightarrow> string list option" where
  "re_match_here [] = None"
| "re_match_here (c # cs) =
     (if is_nonzero_digit c then
        (case dropWhile is_digit cs of
           [] \<Rightarrow> None
         | u # _ \<Rightarrow>
             if is_unit u
             then Some [c # takeWhile is_digit cs @ [u], c # takeWhile is_digit cs, [u]]
             else None)
      else None)"

text \<open>
  \<open>re.FindStringSubmatch\<close> for that pattern: the leftmost position where the pattern
  matches; \<open>None\<close> is Go's \<open>nil\<close> slice (no match).
\<close>

fun FindStringSubmatch :: "string \<Rightarrow> string list option" where
  "FindStringSubmatch [] = None"
| "FindStringSubmatch (c # cs) =
     (case re_match_here (c # cs) of
        Some groups \<Rightarrow> Some groups
      | None \<Rightarrow> FindStringSubmatch cs)"

definition digit_value :: "char \<Rightarrow> int" where
  "digit_value c = of_char c - 48"

text \<open>The number that a string of decimal digits denotes.\<close>

definition decimal :: "string \<Rightarrow> int" where
  "decimal ds = foldl (\<lambda>n c. 10 * n + digit_value c) 0 ds"

text \<open>
  \<open>strconv.Atoi\<close> on a 64-bit platform: an optional sign and decimal digits. A string
  that is no number gives 0 and a syntax error; a number outside the range of \<open>int\<close>
  gives the nearest bound and a range error.
\<close>

definition Atoi :: "string \<Rightarrow> go_int \<times> error option" where
  "Atoi s =
     (let neg = (s \<noteq> [] \<and> hd s = CHR ''-'');
          ds = (if s \<noteq> [] \<and> (hd s = CHR ''-'' \<or> hd s = CHR ''+'') then tl s else s)
      in if ds = [] \<or> \<not> list_all is_digit ds then (0, Some ErrSyntax)
         else if neg then
           (if decimal ds > 2 ^ 63 then (word_of_int (- (2 ^ 63)), Some ErrRange)
            else (word_of_int (- decimal ds), None))
         else
           (if decimal ds \<ge> 2 ^ 63 then (word_of_int (2 ^ 63 - 1), Some ErrRange)
            else (word_of_int (decimal ds), None)))"

definition ascii_lower :: "char \<Rightarrow> char" where
  "ascii_lower c =
     (case map_of (zip ''ABCDEFGHIJKLMNOPQRSTUVWXYZ'' ''abcdefghijklmnopqrstuvwxyz'') c of
        Some l \<Rightarrow> l
      | None \<Rightarrow> c)"

text \<open>\<open>strings.EqualFold\<close> on ASCII strings: equality up to the case of letters.\<close>

definition EqualFold :: "string \<Rightarrow> string \<Rightarrow> bool" where
  "EqualFold s t = (map ascii_lower s = map ascii_lower t)"

fun Split :: "string \<Rightarrow> char \<Rightarrow> string list" where
  "Split [] sep = [[]]"
| "Split (c # cs) sep =
     (if c = sep then [] # Split cs sep
      else (case Split cs sep of
              [] \<Rightarrow> [[c]]
            | w # ws \<Rightarrow> (c # w) # ws))"

subsection \<open>\<open>validateArguments\<close>\<close>

text \<open>
  The function returns an error or \<open>nil\<close> (\<open>None\<close>) and writes \<open>SizeInBytes\<close> through
  the pointer: the model returns the error and the arguments as they are afterwards.
\<close>

definition MaxUint16 :: int where
  "MaxUint16 = 65535"

definition validateArguments :: "Arguments \<Rightarrow> error option \<times> Arguments" where
  "validateArguments args =
     (if sint (Port args) < 0 \<or> sint (Port args) > MaxUint16
        then (Some (PortNotInRange (Port args)), args)
      else if sint (S3Port args) < 0 \<or> sint (S3Port args) > MaxUint16
        then (Some (S3PortNotInRange (S3Port args)), args)
      else
        (case FindStringSubmatch (Size args) of
           None \<Rightarrow> (Some (BadSizeSpecifier (Size args)), args)
         | Some groups \<Rightarrow>
             (let val = fst (Atoi (groups ! 1));
                  args1 = args\<lparr>SizeInBytes := val * 1024\<rparr>;
                  args2 = (if EqualFold (groups ! 2) ''m''
                           then args1\<lparr>SizeInBytes := SizeInBytes args1 * 1024\<rparr>
                           else args1)
              in (None, args2))))"

section \<open>main.go: building the job\<close>

text \<open>
  The declarations of \<open>Order\<close> and \<open>Job\<close> are not among the sources. The fields are the
  ones \<open>startRun\<close> assigns, with the types of the conversions it applies. Three fields
  of the order share a name with a field of \<open>Arguments\<close> and carry the prefix \<open>Order\<close>.
\<close>

record Order =
  JobId :: uint64
  ObjectSize :: uint64
  Seed :: uint64
  GeneratorType :: string
  RangeStart :: uint64
  RangeEnd :: uint64
  OrderTargets :: "string list"
  ConnectionType :: string
  OrderBucket :: string
  Credentials :: "string \<rightharpoonup> string"
  OrderPort :: uint16

record 'r Job =
  order :: Order
  servers :: "string list"
  serverPort :: uint16
  runTime :: uint64
  rampUp :: uint64
  rampDown :: uint64
  report :: 'r

text \<open>The zero values that \<open>var j Job\<close> starts from; the empty report is a parameter.\<close>

definition zero_Order :: Order where
  "zero_Order =
     \<lparr>JobId = 0, ObjectSize = 0, Seed = 0, GeneratorType = [], RangeStart = 0, RangeEnd = 0,
      OrderTargets = [], ConnectionType = [], OrderBucket = [], Credentials = Map.empty,
      OrderPort = 0\<rparr>"

definition zero_Job :: "'r \<Rightarrow> 'r Job" where
  "zero_Job r0 =
     \<lparr>order = zero_Order, servers = [], serverPort = 0, runTime = 0, rampUp = 0,
      rampDown = 0, report = r0\<rparr>"

text \<open>
  The first half of \<open>startRun\<close>, up to the call of \<open>j.setArguments\<close>: the job it builds
  from the arguments. \<open>now\<close> is the value of \<open>time.Now().Unix()\<close>.
\<close>

definition startRun_order :: "Arguments \<Rightarrow> 64 word \<Rightarrow> Order" where
  "startRun_order args now =
     (let o1 = zero_Order
            \<lparr>JobId := 1,
             ObjectSize := SizeInBytes args,
             Seed := now,
             GeneratorType := ''prng'',
             RangeStart := 0,
             RangeEnd := Objects args,
             OrderTargets := Targets args\<rparr>
      in if S3 args then
           o1\<lparr>ConnectionType := ''s3'',
              OrderBucket := S3Bucket args,
              Credentials := [''access_key'' \<mapsto> S3AccessKey args, ''secret_key'' \<mapsto> S3SecretKey args],
              OrderPort := ucast (S3Port args)\<rparr>
         else
           o1\<lparr>ConnectionType := ''rados'',
              OrderBucket := CephPool args,
              Credentials := [''username'' \<mapsto> CephUser args, ''key'' \<mapsto> CephKey args]\<rparr>)"

definition startRun_job :: "Arguments \<Rightarrow> 64 word \<Rightarrow> 'r \<Rightarrow> 'r Job" where
  "startRun_job args now r0 =
     (zero_Job r0)
       \<lparr>servers := Split (Servers args) CHR '','',
        serverPort := ucast (Port args),
        runTime := RunTime args,
        rampUp := RampUp args,
        rampDown := RampDown args,
        order := startRun_order args now\<rparr>"

subsection \<open>The second half of \<open>startRun\<close>: running the job and writing the report\<close>

text \<open>
  What the process does to the outside is a list of effects, in order. \<open>os.Exit\<close> ends
  the process: nothing follows an \<open>Exit\<close>.
\<close>

datatype effect =
    Print string                            \<comment> \<open>\<open>fmt.Printf\<close> of a text without a value\<close>
  | PrintError string error                 \<comment> \<open>\<open>fmt.Printf\<close> of a format and an error\<close>
  | WriteFile string "byte list" "32 word"  \<comment> \<open>\<open>ioutil.WriteFile(name, data, perm)\<close>\<close>
  | Exit int                                \<comment> \<open>\<open>os.Exit(code)\<close>\<close>

text \<open>
  \<open>dieOnError\<close> adds its output to what was printed so far and says whether the process
  has exited.
\<close>

definition dieOnError :: "error option \<Rightarrow> string \<Rightarrow> effect list \<Rightarrow> effect list \<times> bool" where
  "dieOnError err format outs =
     (case err of
        None \<Rightarrow> (outs, False)
      | Some e \<Rightarrow> (outs @ [Print format, PrintError '': %v\<newline>'' e, Exit (- 1)], True))"

text \<open>
  The manager, the method \<open>setArguments\<close> of the job, the JSON encoder and the file
  writer are not among the sources: they are parameters. \<open>manager_Run\<close> is \<open>m.Run(&j)\<close>,
  which returns an error or \<open>nil\<close> and leaves the report in the job.
\<close>

record 'r runtime =
  setArguments :: "'r Job \<Rightarrow> Arguments \<Rightarrow> 'r Job"
  manager_Run :: "'r Job \<Rightarrow> error option \<times> 'r Job"
  MarshalIndent :: "'r \<Rightarrow> error + byte list"
  ioutil_WriteFile :: "string \<Rightarrow> byte list \<Rightarrow> 32 word \<Rightarrow> error option"

definition startRun :: "'r runtime \<Rightarrow> 'r \<Rightarrow> 64 word \<Rightarrow> Arguments \<Rightarrow> effect list" where
  "startRun rt r0 now args =
     (let j = setArguments rt (startRun_job args now r0) args;
          (err, j1) = manager_Run rt j;
          out1 = (case err of
                    Some e \<Rightarrow> [PrintError ''Error running job: %v\<newline>'' e]
                  | None \<Rightarrow> []);
          encoded = MarshalIndent rt (report j1);
          (out2, dead2) =
             dieOnError (case encoded of Inl e \<Rightarrow> Some e | Inr _ \<Rightarrow> None)
               ''Unable to encode results as json'' out1
      in if dead2 then out2
         else
           (let jsonReport = (case encoded of Inr b \<Rightarrow> b | Inl _ \<Rightarrow> []);
                (out3, dead3) =
                   (if JsonOutput args \<noteq> [] then
                      dieOnError (ioutil_WriteFile rt (JsonOutput args) jsonReport 420)
                        ''Unable to write json report to file: %v''
                        (out2 @ [WriteFile (JsonOutput args) jsonReport 420])
                    else (out2, False))
            in if dead3 then out3 else out3 @ [Print ''Done\<newline>'']))"

section \<open>The file system under the connection\<close>

text \<open>
  The connection works on a mounted file system through the operating system. The model
  of it: a path is the list of its elements below the base directory (the root directory
  for an absolute path); a node is a directory or a regular file with its content. A
  directory carries two permissions as they hold for this process: to search it (look
  up and reach its entries) and to write it (add entries). A privileged process passes
  every permission check.

  \<open>transfers\<close> is what the device will do on the coming calls of the file wrapper,
  one entry per call: how many bytes the call moves at most, and the error it reports,
  if any. A call takes the first entry and leaves the rest.
\<close>

type_synonym path = "string list"

datatype node = Dir bool bool | File "byte list"

record world =
  nodes :: "path \<rightharpoonup> node"
  privileged :: bool
  umask :: "32 word"
  transfers :: "nat \<Rightarrow> nat \<times> errno option"

text \<open>
  Path lookup, element by element: every directory on the way must exist, be a
  directory and be searchable.
\<close>

fun walk :: "(path \<rightharpoonup> node) \<Rightarrow> bool \<Rightarrow> path \<Rightarrow> path \<Rightarrow> errno + node" where
  "walk ns priv cur [] = (case ns cur of None \<Rightarrow> Inl ENOENT | Some n \<Rightarrow> Inr n)"
| "walk ns priv cur (c # cs) =
     (case ns cur of
        None \<Rightarrow> Inl ENOENT
      | Some (File _) \<Rightarrow> Inl ENOTDIR
      | Some (Dir s wr) \<Rightarrow> if s \<or> priv then walk ns priv (cur @ [c]) cs else Inl EACCES)"

text \<open>\<open>os.Stat\<close> and \<open>os.Lstat\<close> (the model has no symbolic links).\<close>

definition Stat :: "path \<Rightarrow> world \<Rightarrow> errno + node" where
  "Stat p w = walk (nodes w) (privileged w) [] p"

text \<open>
  \<open>os.Mkdir(path, perm)\<close>: the new directory belongs to the process, so the owner's
  bits of \<open>perm\<close>, less the umask, are its permissions: bit 6 (0100) to search, bit 7
  (0200) to write.
\<close>

definition Mkdir :: "path \<Rightarrow> 32 word \<Rightarrow> world \<Rightarrow> errno option \<times> world" where
  "Mkdir p perm w =
     (if p = [] then (Some EEXIST, w)
      else
        (case Stat (butlast p) w of
           Inl e \<Rightarrow> (Some e, w)
         | Inr (File _) \<Rightarrow> (Some ENOTDIR, w)
         | Inr (Dir s wr) \<Rightarrow>
             if \<not> (s \<or> privileged w) then (Some EACCES, w)
             else if nodes w p \<noteq> None then (Some EEXIST, w)
             else if \<not> (wr \<or> privileged w) then (Some EACCES, w)
             else
               (let mode = perm AND NOT (umask w)
                in (None, w\<lparr>nodes := (nodes w)(p \<mapsto> Dir (bit mode 6) (bit mode 7))\<rparr>))))"

text \<open>
  \<open>os.MkdirAll(path, perm)\<close>, after the library's source: the fast path asks \<open>Stat\<close>;
  the slow path first makes the parent (the path without its last element, when there
  is more than one element), then calls \<open>Mkdir\<close> and, if that fails, looks once more
  whether the directory is there.
\<close>

function MkdirAll :: "path \<Rightarrow> 32 word \<Rightarrow> world \<Rightarrow> errno option \<times> world" where
  "MkdirAll p perm w =
     (case Stat p w of
        Inr (Dir _ _) \<Rightarrow> (None, w)
      | Inr (File _) \<Rightarrow> (Some ENOTDIR, w)
      | Inl _ \<Rightarrow>
          (let (err, w1) = (if 1 < length p then MkdirAll (butlast p) perm w else (None, w))
           in if err \<noteq> None then (err, w1)
              else
                (case Mkdir p perm w1 of
                   (None, w2) \<Rightarrow> (None, w2)
                 | (Some e, w2) \<Rightarrow>
                     (case Stat p w2 of
                        Inr (Dir _ _) \<Rightarrow> (None, w2)
                      | _ \<Rightarrow> (Some e, w2)))))"
  by pat_completeness auto
termination
  by (relation "measure (\<lambda>(p, perm, w). length p)") auto

text \<open>The two steps of the slow path, named for the proofs.\<close>

definition parent_step :: "path \<Rightarrow> 32 word \<Rightarrow> world \<Rightarrow> errno option \<times> world" where
  "parent_step p perm w = (if 1 < length p then MkdirAll (butlast p) perm w else (None, w))"

definition mkdir_step :: "path \<Rightarrow> 32 word \<Rightarrow> world \<Rightarrow> errno option \<times> world" where
  "mkdir_step p perm w1 =
     (case Mkdir p perm w1 of
        (None, w2) \<Rightarrow> (None, w2)
      | (Some e, w2) \<Rightarrow>
          (case Stat p w2 of
             Inr (Dir _ _) \<Rightarrow> (None, w2)
           | _ \<Rightarrow> (Some e, w2)))"

text \<open>
  A file system is well formed when every node hangs in a directory: each proper prefix
  of the path of a node is the path of a directory.
\<close>

definition well_formed :: "world \<Rightarrow> bool" where
  "well_formed w \<longleftrightarrow>
     (\<forall>p n k. nodes w p = Some n \<and> k < length p \<longrightarrow> (\<exists>s wr. nodes w (take k p) = Some (Dir s wr)))"

text \<open>
  \<open>grown_along p w w'\<close>: the world \<open>w'\<close> is \<open>w\<close> with nodes added at prefixes of \<open>p\<close>
  where \<open>w\<close> had none, and nothing else changed.
\<close>

definition grown_along :: "path \<Rightarrow> world \<Rightarrow> world \<Rightarrow> bool" where
  "grown_along p w w' \<longleftrightarrow>
     privileged w' = privileged w \<and> umask w' = umask w \<and> transfers w' = transfers w \<and>
     (\<forall>x. nodes w' x \<noteq> nodes w x \<longrightarrow> nodes w x = None \<and> (\<exists>k\<le>length p. x = take k p))"

subsection \<open>The file wrapper\<close>

text \<open>
  Modelled from the spec: the function \<open>Open\<close> of the repository and the descriptor it
  returns (\<open>Write\<close>, \<open>Read\<close>, \<open>Size\<close>, \<open>Close\<close>) are not among the sources. The spec asks
  of \<open>put\<close> that it drain the buffer "even if the backend only accepts partial writes
  per call": a call moves at most as many bytes as the device takes this time, and at
  most as many as the slice holds; it reports the count and the device's error, if any.
  A descriptor is the path it was opened on and the offset of the next byte.
  \<open>Close\<close> changes nothing that the model holds, and its result is dropped by the
  \<open>defer\<close>.
\<close>

record descriptor =
  fd_path :: path
  fd_pos :: nat

definition O_RDONLY :: "32 word" where "O_RDONLY = 0"
definition O_WRONLY :: "32 word" where "O_WRONLY = 1"
definition O_CREAT :: "32 word" where "O_CREAT = 64"
definition O_TRUNC :: "32 word" where "O_TRUNC = 512"

definition next_transfer :: "world \<Rightarrow> (nat \<times> errno option) \<times> world" where
  "next_transfer w = (transfers w 0, w\<lparr>transfers := (\<lambda>n. transfers w (Suc n))\<rparr>)"

definition create_file :: "path \<Rightarrow> world \<Rightarrow> (error + descriptor) \<times> world" where
  "create_file name w =
     (if name = [] then (Inl (PathError ENOENT), w)
      else
        (case Stat (butlast name) w of
           Inl e \<Rightarrow> (Inl (PathError e), w)
         | Inr (File _) \<Rightarrow> (Inl (PathError ENOTDIR), w)
         | Inr (Dir s wr) \<Rightarrow>
             if (s \<or> privileged w) \<and> (wr \<or> privileged w)
             then (Inr \<lparr>fd_path = name, fd_pos = 0\<rparr>, w\<lparr>nodes := (nodes w)(name \<mapsto> File [])\<rparr>)
             else (Inl (PathError EACCES), w)))"

definition Open :: "path \<Rightarrow> 32 word \<Rightarrow> 32 word \<Rightarrow> world \<Rightarrow> (error + descriptor) \<times> world" where
  "Open name flags perm w =
     (let (t, w1) = next_transfer w
      in case snd t of
           Some e \<Rightarrow> (Inl (PathError e), w1)
         | None \<Rightarrow>
             (case Stat name w1 of
                Inr (Dir _ _) \<Rightarrow> (Inl (PathError EISDIR), w1)
              | Inr (File content) \<Rightarrow>
                  (Inr \<lparr>fd_path = name, fd_pos = 0\<rparr>,
                   if flags AND O_TRUNC \<noteq> 0 then w1\<lparr>nodes := (nodes w1)(name \<mapsto> File [])\<rparr> else w1)
              | Inl e \<Rightarrow>
                  if e = ENOENT \<and> flags AND O_CREAT \<noteq> 0 then create_file name w1
                  else (Inl (PathError e), w1)))"

definition Size_fd :: "descriptor \<Rightarrow> world \<Rightarrow> (error + int) \<times> world" where
  "Size_fd fd w =
     (let (t, w1) = next_transfer w
      in case snd t of
           Some e \<Rightarrow> (Inl (PathError e), w1)
         | None \<Rightarrow>
             (case nodes w1 (fd_path fd) of
                Some (File content) \<Rightarrow> (Inr (int (length content)), w1)
              | _ \<Rightarrow> (Inl (PathError EBADF), w1)))"

text \<open>
  \<open>fd.Write(p)\<close>: the count, the error, the descriptor and the world afterwards. The
  bytes go to the file at the descriptor's offset.
\<close>

definition Write :: "descriptor \<Rightarrow> byte list \<Rightarrow> world \<Rightarrow> (nat \<times> error option) \<times> descriptor \<times> world" where
  "Write fd p w =
     (let (t, w1) = next_transfer w
      in case nodes w1 (fd_path fd) of
           Some (File content) \<Rightarrow>
             (let k = min (fst t) (length p)
              in ((k, map_option PathError (snd t)),
                  fd\<lparr>fd_pos := fd_pos fd + k\<rparr>,
                  w1\<lparr>nodes := (nodes w1)(fd_path fd \<mapsto>
                        File (take (fd_pos fd) content @ take k p @ drop (fd_pos fd + k) content))\<rparr>))
         | _ \<Rightarrow> ((0, Some (PathError EBADF)), fd, w1))"

text \<open>
  \<open>fd.Read(p)\<close> for a slice \<open>p\<close> of length \<open>plen\<close>: the bytes that the call put at the
  start of \<open>p\<close> (their number is the count that Go returns), the error, the descriptor
  and the world afterwards.
\<close>

definition Read :: "descriptor \<Rightarrow> nat \<Rightarrow> world \<Rightarrow> (byte list \<times> error option) \<times> descriptor \<times> world" where
  "Read fd plen w =
     (let (t, w1) = next_transfer w
      in case nodes w1 (fd_path fd) of
           Some (File content) \<Rightarrow>
             (let data = take (min (fst t) plen) (drop (fd_pos fd) content)
              in ((data, map_option PathError (snd t)),
                  fd\<lparr>fd_pos := fd_pos fd + length data\<rparr>, w1))
         | _ \<Rightarrow> (([], Some (PathError EBADF)), fd, w1))"

section \<open>The file connection\<close>

record FileConnectionBase =
  root :: string
  dir :: string

definition InitFileConnectionBase :: "FileConnectionBase \<Rightarrow> string \<Rightarrow> string \<Rightarrow> FileConnectionBase" where
  "InitFileConnectionBase conn root' dir' = conn\<lparr>root := root', dir := dir'\<rparr>"

text \<open>
  \<open>filepath.Join\<close> is the parameter \<open>Join\<close> of every operation: it takes the elements
  and gives the path. Logging is left out.
\<close>

definition CreateDirectory ::
  "(string list \<Rightarrow> path) \<Rightarrow> FileConnectionBase \<Rightarrow> world \<Rightarrow> errno option \<times> world" where
  "CreateDirectory Join conn w = MkdirAll (Join [root conn, dir conn]) 420 w"

text \<open>
  A Go slice of bytes as the callee sees it: its elements (\<open>len\<close> is their number),
  and the rest of the backing array behind them, up to the capacity. What the callee
  stores is seen by the caller, so \<open>GetObject\<close> returns the buffer. \<open>PutObject\<close> only
  reads the elements of its buffer, which is the list of them.
\<close>

record buffer =
  elems :: "byte list"
  spare :: "byte list"

definition cap :: "buffer \<Rightarrow> nat" where
  "cap b = length (elems b) + length (spare b)"

text \<open>The whole backing array from the start of the slice.\<close>

definition backing :: "buffer \<Rightarrow> byte list" where
  "backing b = elems b @ spare b"

text \<open>
  The buffer after a \<open>Read\<close> into \<open>buffer[start:]\<close> that returned \<open>data\<close>; a \<open>Read\<close>
  returns no more than the slice holds.
\<close>

definition store_at :: "buffer \<Rightarrow> nat \<Rightarrow> byte list \<Rightarrow> buffer" where
  "store_at b start data =
     b\<lparr>elems := take start (elems b) @ data @ drop (start + length data) (elems b)\<rparr>"

text \<open>The object stored under a path, if there is one.\<close>

definition stored_object :: "world \<Rightarrow> path \<Rightarrow> byte list option" where
  "stored_object w p = (case nodes w p of Some (File content) \<Rightarrow> Some content | _ \<Rightarrow> None)"

text \<open>
  The loop of \<open>PutObject\<close>. It need not end (a device that fails every call keeps it
  running): \<open>None\<close> is the run that never returns. The slice expression \<open>buffer[n:]\<close>
  panics when \<open>n\<close> exceeds the length.
\<close>

partial_function (option) PutObject_loop ::
  "descriptor \<Rightarrow> byte list \<Rightarrow> world \<Rightarrow> (error option \<times> world) option" where
  "PutObject_loop fd buffer w =
     (if length buffer > 0 then
        (case Write fd buffer w of
           ((n, err), fd1, w1) \<Rightarrow>
             if err = None then Some (err, w1)
             else if n > length buffer then Some (Some SliceBoundsOutOfRange, w1)
             else PutObject_loop fd1 (drop n buffer) w1)
      else Some (None, w))"

definition PutObject ::
  "(string list \<Rightarrow> path) \<Rightarrow> FileConnectionBase \<Rightarrow> string \<Rightarrow> uint64 \<Rightarrow> byte list \<Rightarrow> world
     \<Rightarrow> (error option \<times> world) option" where
  "PutObject Join conn key ident buffer w =
     (let filename = Join [root conn, dir conn, key]
      in case Open filename (O_WRONLY OR O_CREAT OR O_TRUNC) 420 w of
           (Inl err, w1) \<Rightarrow> Some (Some err, w1)
         | (Inr fd, w1) \<Rightarrow> PutObject_loop fd buffer w1)"

text \<open>The loop of \<open>GetObject\<close>; \<open>remaining\<close> is an \<open>int64\<close> that only falls from a file size.\<close>

partial_function (option) GetObject_loop ::
  "descriptor \<Rightarrow> buffer \<Rightarrow> nat \<Rightarrow> int \<Rightarrow> world \<Rightarrow> (error option \<times> buffer \<times> world) option" where
  "GetObject_loop fd buffer start remaining w =
     (if remaining > 0 then
        (if start > length (elems buffer) then Some (Some SliceBoundsOutOfRange, buffer, w)
         else
           (case Read fd (length (elems buffer) - start) w of
              ((data, err), fd1, w1) \<Rightarrow>
                if err \<noteq> None then Some (err, store_at buffer start data, w1)
                else GetObject_loop fd1 (store_at buffer start data) (start + length data)
                       (remaining - int (length data)) w1))
      else Some (None, buffer, w))"

definition GetObject ::
  "(string list \<Rightarrow> path) \<Rightarrow> FileConnectionBase \<Rightarrow> string \<Rightarrow> uint64 \<Rightarrow> buffer \<Rightarrow> world
     \<Rightarrow> (error option \<times> buffer \<times> world) option" where
  "GetObject Join conn key ident buffer w =
     (let filename = Join [root conn, dir conn, key]
      in case Open filename O_RDONLY 420 w of
           (Inl err, w1) \<Rightarrow> Some (Some err, buffer, w1)
         | (Inr fd, w1) \<Rightarrow>
             (case Size_fd fd w1 of
                (Inl err, w2) \<Rightarrow> Some (Some err, buffer, w2)
              | (Inr remaining, w2) \<Rightarrow>
                  if int (cap buffer) \<noteq> remaining
                  then Some (Some (FileHasWrongSize (cap buffer) remaining), buffer, w2)
                  else GetObject_loop fd buffer 0 remaining w2))"

definition InvalidateCache :: "FileConnectionBase \<Rightarrow> error option" where
  "InvalidateCache conn = None"

section \<open>Notions of the claims and example inputs\<close>

text \<open>
  A size token, in the words of the pattern: one or more digits, the first of them from
  1 to 9, followed by one of the letters k, K, m and M.
\<close>

definition size_token :: "string \<Rightarrow> bool" where
  "size_token t =
     (2 \<le> length t \<and> is_nonzero_digit (hd t) \<and> list_all is_digit (butlast (tl t)) \<and>
      is_unit (last t))"

text \<open>The multiplier of a unit letter: 1024 for k and K, 1048576 for m and M.\<close>

definition unit_multiplier :: "char \<Rightarrow> int" where
  "unit_multiplier u = (if u = CHR ''m'' \<or> u = CHR ''M'' then 1048576 else 1024)"

text \<open>Both ports pass the range checks of \<open>validateArguments\<close>.\<close>

definition ports_in_range :: "Arguments \<Rightarrow> bool" where
  "ports_in_range args =
     (0 \<le> sint (Port args) \<and> sint (Port args) \<le> 65535 \<and>
      0 \<le> sint (S3Port args) \<and> sint (S3Port args) \<le> 65535)"

text \<open>
  A small mounted file system: the directory \<open>/mnt/bench\<close> with one object of three
  bytes, seen by an unprivileged process with umask 022, on a device that moves one
  byte per call and reports no error.
\<close>

definition example_world :: world where
  "example_world =
     \<lparr>nodes = [[] \<mapsto> Dir True True,
               [''mnt''] \<mapsto> Dir True True,
               [''mnt'', ''bench''] \<mapsto> Dir True True,
               [''mnt'', ''bench'', ''obj''] \<mapsto> File [1, 2, 3]],
      privileged = False,
      umask = 18,
      transfers = (\<lambda>n. (1, None))\<rparr>"

text \<open>A \<open>Join\<close> for elements that are single names: the empty ones are dropped.\<close>

definition example_Join :: "string list \<Rightarrow> path" where
  "example_Join names = filter (\<lambda>s. s \<noteq> []) names"

definition example_conn :: FileConnectionBase where
  "example_conn = \<lparr>root = ''mnt'', dir = ''bench''\<rparr>"

text \<open>Arguments as the usage string's defaults give them, for a run against Ceph.\<close>

definition default_args :: Arguments where
  "default_args =
     \<lparr>Server = False, S3 = False, Rados = True, Run = True, Verbose = False, Port = 5150,
      Size = ''1M'', Objects = 1000, Servers = ''localhost'', RunTime = 30, RampUp = 5,
      RampDown = 2, JsonOutput = [], Targets = [''mon1''], S3AccessKey = [], S3SecretKey = [],
      S3Bucket = ''sibench'', S3Port = 7480, CephPool = ''sibench'', CephUser = ''admin'',
      CephKey = ''secret'', Bucket = [], SizeInBytes = 0\<rparr>"

text \<open>
  The invariant of the loop of \<open>GetObject\<close>: the descriptor stands at \<open>start\<close> in a file
  of the buffer's capacity, \<open>remaining\<close> is what is left of the file, and the slice
  holds the first \<open>start\<close> bytes of the file.
\<close>

definition loop_inv :: "descriptor \<Rightarrow> buffer \<Rightarrow> nat \<Rightarrow> int \<Rightarrow> world \<Rightarrow> byte list \<Rightarrow> bool" where
  "loop_inv fd b start remaining w content \<longleftrightarrow>
     nodes w (fd_path fd) = Some (File content) \<and> fd_pos fd = start \<and>
     remaining = int (length content) - int start \<and> start \<le> length (elems b) \<and>
     length (elems b) + length (spare b) = length content \<and>
     take start (elems b) = take start content"

text \<open>
  A run in which no foreman replies: the manager returns an error and leaves a partial
  report; the encoder and the file writer succeed.
\<close>

definition example_runtime :: "string runtime" where
  "example_runtime =
     \<lparr>setArguments = (\<lambda>j args. j),
      manager_Run = (\<lambda>j. (Some (OtherError ''no foreman replied''), j\<lparr>report := ''partial''\<rparr>)),
      MarshalIndent = (\<lambda>r. Inr (map (of_char :: char \<Rightarrow> byte) r)),
      ioutil_WriteFile = (\<lambda>name data perm. None)\<rparr>"

section \<open>Lemmas on the size pattern\<close>

lemma unit_not_digit: "is_unit u \<Longrightarrow> \<not> is_digit u"
  by (auto simp: is_unit_def is_digit_def)

lemma nonzero_digit_is_digit: "is_nonzero_digit c \<Longrightarrow> is_digit c"
  by (auto simp: is_nonzero_digit_def is_digit_def)

lemma re_match_here_token:
  assumes "is_nonzero_digit d" "list_all is_digit ds" "is_unit u"
  shows "re_match_here (d # ds @ u # post) = Some [d # ds @ [u], d # ds, [u]]"
proof -
  have nd: "\<not> is_digit u" using assms(3) by (rule unit_not_digit)
  have all: "\<forall>x\<in>set ds. is_digit x" using assms(2) by (simp add: list_all_iff)
  have tw: "takeWhile is_digit (ds @ u # post) = ds"
    using nd all by (simp add: takeWhile_tail)
  have dw: "dropWhile is_digit (ds @ u # post) = u # post"
    using nd all by (simp add: dropWhile_append3)
  show ?thesis using assms(1,3) tw dw by simp
qed

lemma re_match_here_Some:
  assumes "re_match_here s = Some g"
  shows "\<exists>d ds u post. s = d # ds @ u # post \<and> is_nonzero_digit d \<and> list_all is_digit ds \<and>
           is_unit u \<and> g = [d # ds @ [u], d # ds, [u]]"
proof (cases s)
  case Nil
  with assms show ?thesis by simp
next
  case (Cons c cs)
  from assms Cons have nz: "is_nonzero_digit c"
    by (simp split: if_splits)
  from assms Cons nz obtain u rest where dw: "dropWhile is_digit cs = u # rest" and un: "is_unit u"
    and g: "g = [c # takeWhile is_digit cs @ [u], c # takeWhile is_digit cs, [u]]"
    by (auto split: list.splits if_splits)
  have "cs = takeWhile is_digit cs @ u # rest"
    using dw takeWhile_dropWhile_id [of is_digit cs] by simp
  moreover have "list_all is_digit (takeWhile is_digit cs)"
    by (simp add: list_all_iff) (meson set_takeWhileD)
  ultimately show ?thesis using Cons nz un g by blast
qed

lemma size_token_decompose:
  "size_token t \<longleftrightarrow> (\<exists>d ds u. t = d # ds @ [u] \<and> is_nonzero_digit d \<and> list_all is_digit ds \<and> is_unit u)"
proof
  assume st: "size_token t"
  then have len: "2 \<le> length t" by (simp add: size_token_def)
  then obtain d r where t: "t = d # r"
    by (cases t) auto
  with len have r: "r \<noteq> []" by auto
  from r have "r = butlast r @ [last r]" by simp
  then have "t = d # butlast r @ [last r]" using t by simp
  moreover from st t r have "is_nonzero_digit d" "list_all is_digit (butlast r)" "is_unit (last r)"
    by (simp_all add: size_token_def)
  ultimately show "\<exists>d ds u. t = d # ds @ [u] \<and> is_nonzero_digit d \<and> list_all is_digit ds \<and> is_unit u"
    by blast
next
  assume "\<exists>d ds u. t = d # ds @ [u] \<and> is_nonzero_digit d \<and> list_all is_digit ds \<and> is_unit u"
  then show "size_token t" by (auto simp: size_token_def)
qed

lemma FindStringSubmatch_None:
  "FindStringSubmatch s = None \<Longrightarrow> s = pre @ t @ post \<Longrightarrow> \<not> size_token t"
proof (induction s arbitrary: pre)
  case Nil
  then show ?case by (simp add: size_token_def)
next
  case (Cons c cs)
  from Cons.prems(1) have here: "re_match_here (c # cs) = None" and rest: "FindStringSubmatch cs = None"
    by (auto split: option.splits simp del: re_match_here.simps)
  show ?case
  proof (cases pre)
    case Nil
    show ?thesis
    proof
      assume "size_token t"
      then obtain d ds u where t: "t = d # ds @ [u]" and p: "is_nonzero_digit d" "list_all is_digit ds" "is_unit u"
        using size_token_decompose by blast
      from Cons.prems(2) Nil t have "c # cs = d # ds @ u # post" by simp
      with re_match_here_token [OF p, of post] here show False by simp
    qed
  next
    case (Cons p pre')
    with Cons.prems(2) have "cs = pre' @ t @ post" by simp
    with Cons.IH [OF rest] show ?thesis by blast
  qed
qed

lemma FindStringSubmatch_leftmost:
  assumes "s = pre @ t @ post" "size_token t"
    and "\<forall>pre' t' post'. s = pre' @ t' @ post' \<and> size_token t' \<longrightarrow> length pre \<le> length pre'"
  shows "FindStringSubmatch s = Some [t, butlast t, [last t]]"
  using assms
proof (induction pre arbitrary: s)
  case Nil
  from Nil.prems(2) obtain d ds u where t: "t = d # ds @ [u]" and p: "is_nonzero_digit d" "list_all is_digit ds" "is_unit u"
    using size_token_decompose by blast
  have "s = d # ds @ u # post" using Nil.prems(1) t by simp
  then show ?case using re_match_here_token [OF p, of post] t by (simp add: butlast_append)
next
  case (Cons c pre)
  have s: "s = c # (pre @ t @ post)" using Cons.prems(1) by simp
  have here: "re_match_here s = None"
  proof (rule ccontr)
    assume "re_match_here s \<noteq> None"
    then obtain g where "re_match_here s = Some g" by blast
    then obtain d ds u post' where s': "s = d # ds @ u # post'"
      and p: "is_nonzero_digit d" "list_all is_digit ds" "is_unit u"
      using re_match_here_Some by blast
    have "size_token (d # ds @ [u])" using p size_token_decompose by blast
    moreover have "s = [] @ (d # ds @ [u]) @ post'" using s' by simp
    ultimately have "length (c # pre) \<le> length ([] :: string)" using Cons.prems(3) by blast
    then show False by simp
  qed
  have left: "\<forall>pre' t' post'. pre @ t @ post = pre' @ t' @ post' \<and> size_token t' \<longrightarrow> length pre \<le> length pre'"
  proof (intro allI impI)
    fix pre' t' post'
    assume a: "pre @ t @ post = pre' @ t' @ post' \<and> size_token t'"
    then have "s = (c # pre') @ t' @ post'" using s by simp
    with a Cons.prems(3) have "length (c # pre) \<le> length (c # pre')" by blast
    then show "length pre \<le> length pre'" by simp
  qed
  have "FindStringSubmatch (pre @ t @ post) = Some [t, butlast t, [last t]]"
    using Cons.IH [OF refl Cons.prems(2) left] .
  then show ?case using here s by simp
qed

lemma decimal_grows:
  "n \<le> m \<Longrightarrow> list_all is_digit ds \<Longrightarrow> 0 \<le> n \<Longrightarrow>
   n \<le> foldl (\<lambda>n c. 10 * n + digit_value c) m ds"
proof (induction ds arbitrary: m)
  case Nil then show ?case by simp
next
  case (Cons c cs)
  then have "is_digit c" by simp
  then have "0 \<le> digit_value c" by (auto simp: is_digit_def digit_value_def)
  with Cons.prems have "n \<le> 10 * m + digit_value c" by simp
  with Cons show ?case by simp
qed

lemma decimal_token_pos:
  assumes "is_nonzero_digit d" "list_all is_digit ds"
  shows "1 \<le> decimal (d # ds)"
proof -
  have "1 \<le> digit_value d" using assms(1) by (auto simp: is_nonzero_digit_def digit_value_def)
  then show ?thesis using decimal_grows [of 1 "digit_value d" ds] assms(2) by (simp add: decimal_def)
qed

lemma Atoi_digits:
  assumes "is_nonzero_digit d" "list_all is_digit ds"
  shows "fst (Atoi (d # ds)) = word_of_int (min (decimal (d # ds)) (2 ^ 63 - 1))"
proof -
  have "d \<noteq> CHR ''-''" "d \<noteq> CHR ''+''" using assms(1) by (auto simp: is_nonzero_digit_def)
  moreover have "list_all is_digit (d # ds)" using assms nonzero_digit_is_digit by simp
  ultimately show ?thesis by (simp add: Atoi_def Let_def min_def)
qed

lemma EqualFold_unit: "is_unit u \<Longrightarrow> EqualFold [u] ''m'' \<longleftrightarrow> u = CHR ''m'' \<or> u = CHR ''M''"
  by (auto simp: is_unit_def EqualFold_def ascii_lower_def)

lemma FindStringSubmatch_Some:
  "FindStringSubmatch s = Some g \<Longrightarrow>
   \<exists>d ds u. g = [d # ds @ [u], d # ds, [u]] \<and> is_nonzero_digit d \<and> list_all is_digit ds \<and> is_unit u"
proof (induction s)
  case Nil
  then show ?case by simp
next
  case (Cons c cs)
  show ?case
  proof (cases "re_match_here (c # cs)")
    case None
    with Cons show ?thesis by (simp del: re_match_here.simps)
  next
    case (Some g')
    with Cons.prems have "g' = g" by (simp del: re_match_here.simps)
    with Some re_match_here_Some [of "c # cs" g] show ?thesis by blast
  qed
qed

lemma validateArguments_groups:
  assumes "ports_in_range args"
    and "FindStringSubmatch (Size args) = Some [d # ds @ [u], d # ds, [u]]"
    and "is_nonzero_digit d" "list_all is_digit ds" "is_unit u"
  shows "validateArguments args =
           (None, args\<lparr>SizeInBytes :=
              word_of_int (min (decimal (d # ds)) (2 ^ 63 - 1) * unit_multiplier u)\<rparr>)"
proof -
  have a: "fst (Atoi (d # ds)) = word_of_int (min (decimal (d # ds)) (2 ^ 63 - 1))"
    using assms(3,4) by (rule Atoi_digits)
  have e: "EqualFold [u] ''m'' \<longleftrightarrow> u = CHR ''m'' \<or> u = CHR ''M''"
    using assms(5) by (rule EqualFold_unit)
  have p: "\<not> (sint (Port args) < 0 \<or> sint (Port args) > MaxUint16)"
    "\<not> (sint (S3Port args) < 0 \<or> sint (S3Port args) > MaxUint16)"
    using assms(1) by (auto simp: ports_in_range_def MaxUint16_def)
  show ?thesis
    unfolding validateArguments_def using p assms(2) a e
    by (simp add: Let_def unit_multiplier_def)
qed

lemma validateArguments_None:
  assumes "validateArguments args = (None, args')"
  shows "ports_in_range args \<and> (\<exists>groups. FindStringSubmatch (Size args) = Some groups)"
  using assms unfolding validateArguments_def ports_in_range_def MaxUint16_def
  by (auto split: if_splits option.splits simp: Let_def)

lemma product_small:
  assumes "1 \<le> (n::int)" "n * unit_multiplier u < 2 ^ 64"
  shows "min n (2 ^ 63 - 1) = n" "1024 \<le> n * unit_multiplier u"
proof -
  have m: "1024 \<le> unit_multiplier u" by (simp add: unit_multiplier_def)
  have "n * 1024 \<le> n * unit_multiplier u" using assms(1) m by (simp add: mult_left_mono)
  with assms(2) have "n * 1024 < 2 ^ 64" by simp
  then have "n < 2 ^ 63" by simp
  then show "min n (2 ^ 63 - 1) = n" by simp
  have "1 * 1024 \<le> n * unit_multiplier u" using assms(1) m by (intro mult_mono) simp_all
  then show "1024 \<le> n * unit_multiplier u" by simp
qed

lemma uint_word_of_int_small:
  "0 \<le> x \<Longrightarrow> x < 2 ^ 64 \<Longrightarrow> uint (word_of_int x :: 64 word) = x"
  by (simp add: uint_word_of_int)

section \<open>Lemmas on the file system\<close>

declare MkdirAll.simps [simp del]

lemma walk_Inr_iff:
  "walk ns priv cur rest = Inr n \<longleftrightarrow>
     ns (cur @ rest) = Some n \<and>
     (\<forall>k<length rest. \<exists>s wr. ns (cur @ take k rest) = Some (Dir s wr) \<and> (s \<or> priv))"
proof (induction rest arbitrary: cur)
  case Nil
  show ?case by (auto split: option.splits)
next
  case (Cons c cs)
  have split: "(\<forall>k<length (c # cs). \<exists>s wr. ns (cur @ take k (c # cs)) = Some (Dir s wr) \<and> (s \<or> priv)) \<longleftrightarrow>
      (\<exists>s wr. ns cur = Some (Dir s wr) \<and> (s \<or> priv)) \<and>
      (\<forall>k<length cs. \<exists>s wr. ns ((cur @ [c]) @ take k cs) = Some (Dir s wr) \<and> (s \<or> priv))"
    (is "?L \<longleftrightarrow> ?A \<and> ?B")
  proof
    assume l: ?L
    have a: ?A using l [rule_format, of 0] by simp
    have b: ?B
    proof (intro allI impI)
      fix k assume "k < length cs"
      then have "Suc k < length (c # cs)" by simp
      from l [rule_format, OF this] show "\<exists>s wr. ns ((cur @ [c]) @ take k cs) = Some (Dir s wr) \<and> (s \<or> priv)"
        by simp
    qed
    from a b show "?A \<and> ?B" ..
  next
    assume ab: "?A \<and> ?B"
    show ?L
    proof (intro allI impI)
      fix k assume k: "k < length (c # cs)"
      show "\<exists>s wr. ns (cur @ take k (c # cs)) = Some (Dir s wr) \<and> (s \<or> priv)"
      proof (cases k)
        case 0
        with ab show ?thesis by simp
      next
        case (Suc j)
        with k have "j < length cs" by simp
        with ab have "\<exists>s wr. ns ((cur @ [c]) @ take j cs) = Some (Dir s wr) \<and> (s \<or> priv)" by blast
        with Suc show ?thesis by simp
      qed
    qed
  qed
  have "walk ns priv cur (c # cs) = Inr n \<longleftrightarrow>
      (\<exists>s wr. ns cur = Some (Dir s wr) \<and> (s \<or> priv)) \<and> walk ns priv (cur @ [c]) cs = Inr n"
    by (auto split: option.splits node.splits)
  also have "\<dots> \<longleftrightarrow> (\<exists>s wr. ns cur = Some (Dir s wr) \<and> (s \<or> priv)) \<and>
      ns ((cur @ [c]) @ cs) = Some n \<and>
      (\<forall>k<length cs. \<exists>s wr. ns ((cur @ [c]) @ take k cs) = Some (Dir s wr) \<and> (s \<or> priv))"
    using Cons.IH [of "cur @ [c]"] by simp
  finally show ?case using split by auto
qed

lemma Stat_Inr_iff:
  "Stat p w = Inr n \<longleftrightarrow>
     nodes w p = Some n \<and>
     (\<forall>k<length p. \<exists>s wr. nodes w (take k p) = Some (Dir s wr) \<and> (s \<or> privileged w))"
  unfolding Stat_def using walk_Inr_iff [of "nodes w" "privileged w" "[]" p n] by simp

lemma walk_cong:
  "(\<forall>k\<le>length rest. ns (cur @ take k rest) = ns' (cur @ take k rest)) \<Longrightarrow>
   walk ns priv cur rest = walk ns' priv cur rest"
proof (induction rest arbitrary: cur)
  case Nil
  then show ?case by simp
next
  case (Cons c cs)
  have here: "ns cur = ns' cur" using Cons.prems [rule_format, of 0] by simp
  have "\<forall>k\<le>length cs. ns ((cur @ [c]) @ take k cs) = ns' ((cur @ [c]) @ take k cs)"
  proof (intro allI impI)
    fix k assume "k \<le> length cs"
    then have "Suc k \<le> length (c # cs)" by simp
    from Cons.prems [rule_format, OF this] show "ns ((cur @ [c]) @ take k cs) = ns' ((cur @ [c]) @ take k cs)"
      by simp
  qed
  from Cons.IH [OF this] here show ?case by (simp split: option.splits node.splits)
qed

lemma Stat_cong:
  assumes "privileged w' = privileged w"
    and "\<forall>k\<le>length p. nodes w' (take k p) = nodes w (take k p)"
  shows "Stat p w' = Stat p w"
  unfolding Stat_def using walk_cong [of p "nodes w'" "[]" "nodes w" "privileged w"] assms by simp

lemma Mkdir_fail: "Mkdir p perm w = (Some e, w') \<Longrightarrow> w' = w"
  by (auto simp: Mkdir_def Let_def split: if_splits sum.splits node.splits)

lemma Mkdir_ok:
  assumes "Mkdir p perm w = (None, w')"
  shows "p \<noteq> [] \<and> nodes w p = None \<and>
         (\<exists>s wr. Stat (butlast p) w = Inr (Dir s wr) \<and> (s \<or> privileged w)) \<and>
         (\<exists>a b. w' = w\<lparr>nodes := (nodes w)(p \<mapsto> Dir a b)\<rparr>)"
  using assms
  by (auto simp: Mkdir_def Let_def split: if_splits sum.splits node.splits)

lemma take_lt_neq:
  assumes "k < length p"
  shows "take k p \<noteq> p"
proof
  assume "take k p = p"
  then have "length (take k p) = length p" by simp
  with assms show False by simp
qed

lemma Mkdir_ok_Stat:
  assumes "Mkdir p perm w = (None, w')"
  shows "\<exists>s wr. Stat p w' = Inr (Dir s wr)"
proof -
  from Mkdir_ok [OF assms] obtain s wr a b where ne: "p \<noteq> []"
    and par: "Stat (butlast p) w = Inr (Dir s wr)" and sp: "s \<or> privileged w"
    and w': "w' = w\<lparr>nodes := (nodes w)(p \<mapsto> Dir a b)\<rparr>" by blast
  from par have pn: "nodes w (butlast p) = Some (Dir s wr)"
    and anc: "\<forall>k<length (butlast p). \<exists>s wr. nodes w (take k (butlast p)) = Some (Dir s wr) \<and> (s \<or> privileged w)"
    by (simp_all add: Stat_Inr_iff)
  have "\<forall>k<length p. \<exists>s wr. nodes w' (take k p) = Some (Dir s wr) \<and> (s \<or> privileged w')"
  proof (intro allI impI)
    fix k assume k: "k < length p"
    then have neq: "take k p \<noteq> p" by (rule take_lt_neq)
    show "\<exists>s wr. nodes w' (take k p) = Some (Dir s wr) \<and> (s \<or> privileged w')"
    proof (cases "k < length p - 1")
      case True
      then have "take k (butlast p) = take k p" by (simp add: take_butlast)
      with anc True have "\<exists>s wr. nodes w (take k p) = Some (Dir s wr) \<and> (s \<or> privileged w)"
        by (metis length_butlast)
      with neq w' show ?thesis by simp
    next
      case False
      with k have "k = length p - 1" by simp
      then have "take k p = butlast p" by (simp add: butlast_conv_take)
      with pn sp neq w' show ?thesis by simp
    qed
  qed
  moreover have "nodes w' p = Some (Dir a b)" using w' by simp
  ultimately show ?thesis by (simp add: Stat_Inr_iff)
qed

lemma MkdirAll_fast_dir: "Stat p w = Inr (Dir s wr) \<Longrightarrow> MkdirAll p perm w = (None, w)"
  by (subst MkdirAll.simps) simp

lemma MkdirAll_fast_file: "Stat p w = Inr (File c) \<Longrightarrow> MkdirAll p perm w = (Some ENOTDIR, w)"
  by (subst MkdirAll.simps) simp

lemma MkdirAll_slow:
  assumes "Stat p w = Inl e0"
  shows "MkdirAll p perm w =
           (case parent_step p perm w of
              (err, w1) \<Rightarrow> if err \<noteq> None then (err, w1) else mkdir_step p perm w1)"
  using assms
  by (subst MkdirAll.simps) (simp add: parent_step_def mkdir_step_def split: prod.splits)

lemma mkdir_step_None:
  assumes "mkdir_step p perm w1 = (None, w2)"
  shows "\<exists>s wr. Stat p w2 = Inr (Dir s wr)"
proof (cases "Mkdir p perm w1")
  case (Pair m w')
  show ?thesis
  proof (cases m)
    case None
    with Pair assms have "w2 = w'" by (simp add: mkdir_step_def)
    with Pair None Mkdir_ok_Stat show ?thesis by blast
  next
    case (Some e)
    with Pair assms show ?thesis
      by (auto simp: mkdir_step_def split: sum.splits node.splits)
  qed
qed

lemma mkdir_step_Some:
  assumes "mkdir_step p perm w1 = (Some e, w2)"
  shows "w2 = w1 \<and> (\<forall>s wr. Stat p w1 \<noteq> Inr (Dir s wr))"
proof (cases "Mkdir p perm w1")
  case (Pair m w')
  show ?thesis
  proof (cases m)
    case None
    with Pair assms show ?thesis by (simp add: mkdir_step_def)
  next
    case (Some e')
    with Pair have "w' = w1" using Mkdir_fail by blast
    with Pair Some assms show ?thesis
      by (auto simp: mkdir_step_def split: sum.splits node.splits)
  qed
qed

lemma mkdir_step_frame:
  assumes "mkdir_step p perm w1 = (r, w2)"
  shows "privileged w2 = privileged w1 \<and> umask w2 = umask w1 \<and> transfers w2 = transfers w1 \<and>
         (\<forall>x. nodes w2 x \<noteq> nodes w1 x \<longrightarrow> nodes w1 x = None \<and> x = p)"
proof (cases "Mkdir p perm w1")
  case (Pair m w')
  show ?thesis
  proof (cases m)
    case None
    with Pair assms have "w2 = w'" by (simp add: mkdir_step_def)
    with Pair None Mkdir_ok [of p perm w1 w2] show ?thesis by (auto split: if_splits)
  next
    case (Some e')
    with Pair have "w' = w1" using Mkdir_fail by blast
    with Pair Some assms have "w2 = w1"
      by (auto simp: mkdir_step_def split: sum.splits node.splits)
    then show ?thesis by simp
  qed
qed

lemma MkdirAll_None_Stat:
  assumes "MkdirAll p perm w = (None, w')"
  shows "\<exists>s wr. Stat p w' = Inr (Dir s wr)"
proof (cases "Stat p w")
  case (Inr n)
  with assms show ?thesis
    by (cases n) (auto simp: MkdirAll_fast_dir MkdirAll_fast_file)
next
  case (Inl e0)
  obtain err w1 where ps: "parent_step p perm w = (err, w1)" by (cases "parent_step p perm w")
  from assms MkdirAll_slow [OF Inl, of perm] ps
  have "err = None" and "mkdir_step p perm w1 = (None, w')"
    by (auto split: if_splits)
  then show ?thesis using mkdir_step_None by blast
qed

lemma grown_along_refl: "grown_along p w w"
  by (simp add: grown_along_def)

lemma grown_along_butlast:
  assumes "grown_along (butlast p) w w1"
  shows "grown_along p w w1"
proof -
  have pre: "\<exists>j\<le>length p. take k (butlast p) = take j p" if "k \<le> length (butlast p)" for k
  proof (cases "p = []")
    case True
    then show ?thesis by simp
  next
    case False
    from that have "k \<le> length p - 1" by simp
    moreover from False have "0 < length p" by simp
    ultimately have "k < length p" by linarith
    then have "take k (butlast p) = take k p" "k \<le> length p" by (simp_all add: take_butlast)
    then show ?thesis by blast
  qed
  have "\<forall>x. nodes w1 x \<noteq> nodes w x \<longrightarrow> nodes w x = None \<and> (\<exists>k\<le>length p. x = take k p)"
  proof (intro allI impI)
    fix x assume "nodes w1 x \<noteq> nodes w x"
    with assms obtain k where "nodes w x = None" "k \<le> length (butlast p)" "x = take k (butlast p)"
      unfolding grown_along_def by blast
    with pre [of k] show "nodes w x = None \<and> (\<exists>k\<le>length p. x = take k p)" by auto
  qed
  with assms show ?thesis by (simp add: grown_along_def)
qed

lemma grown_along_trans_step:
  assumes a: "grown_along p w w1"
    and b: "privileged w2 = privileged w1 \<and> umask w2 = umask w1 \<and> transfers w2 = transfers w1 \<and>
         (\<forall>x. nodes w2 x \<noteq> nodes w1 x \<longrightarrow> nodes w1 x = None \<and> x = p)"
  shows "grown_along p w w2"
proof -
  have "\<forall>x. nodes w2 x \<noteq> nodes w x \<longrightarrow> nodes w x = None \<and> (\<exists>k\<le>length p. x = take k p)"
  proof (intro allI impI)
    fix x assume d: "nodes w2 x \<noteq> nodes w x"
    show "nodes w x = None \<and> (\<exists>k\<le>length p. x = take k p)"
    proof (cases "nodes w1 x = nodes w x")
      case True
      with d have "nodes w2 x \<noteq> nodes w1 x" by simp
      with b have "nodes w1 x = None" "x = p" by blast+
      with True have "nodes w x = None" by simp
      moreover have "\<exists>k\<le>length p. x = take k p" using \<open>x = p\<close> by (intro exI [of _ "length p"]) simp
      ultimately show ?thesis ..
    next
      case False
      with a show ?thesis by (simp add: grown_along_def)
    qed
  qed
  with a b show ?thesis by (simp add: grown_along_def)
qed

lemma MkdirAll_grown: "MkdirAll p perm w = (r, w') \<Longrightarrow> grown_along p w w'"
proof (induction p perm w arbitrary: r w' rule: MkdirAll.induct)
  case (1 p perm w)
  show ?case
  proof (cases "Stat p w")
    case (Inr n)
    with "1.prems" have "w' = w"
      by (cases n) (auto simp: MkdirAll_fast_dir MkdirAll_fast_file)
    then show ?thesis by (simp add: grown_along_refl)
  next
    case (Inl e0)
    obtain err w1 where ps: "parent_step p perm w = (err, w1)" by (cases "parent_step p perm w")
    have g1: "grown_along p w w1"
    proof (cases "1 < length p")
      case True
      with ps have "MkdirAll (butlast p) perm w = (err, w1)" by (simp add: parent_step_def)
      from "1.IH" [OF Inl True this] show ?thesis by (rule grown_along_butlast)
    next
      case False
      with ps have "w1 = w" by (simp add: parent_step_def)
      then show ?thesis by (simp add: grown_along_refl)
    qed
    show ?thesis
    proof (cases err)
      case (Some e)
      with "1.prems" MkdirAll_slow [OF Inl, of perm] ps have "w' = w1" by simp
      with g1 show ?thesis by simp
    next
      case None
      with "1.prems" MkdirAll_slow [OF Inl, of perm] ps have "mkdir_step p perm w1 = (r, w')" by simp
      from grown_along_trans_step [OF g1 mkdir_step_frame [OF this]] show ?thesis .
    qed
  qed
qed

lemma well_formed_prefix:
  assumes "well_formed w" "nodes w p = Some nd" "k < length p"
  shows "\<exists>s wr. nodes w (take k p) = Some (Dir s wr)"
proof -
  from assms(1) have "nodes w p = Some nd \<and> k < length p \<longrightarrow> (\<exists>s wr. nodes w (take k p) = Some (Dir s wr))"
    unfolding well_formed_def by (elim allE)
  with assms(2,3) show ?thesis by simp
qed

lemma grown_along_kept:
  assumes "grown_along q w w1" "nodes w x \<noteq> None"
  shows "nodes w1 x = nodes w x"
proof (rule ccontr)
  assume "nodes w1 x \<noteq> nodes w x"
  moreover from assms(1) have "nodes w1 x \<noteq> nodes w x \<longrightarrow> nodes w x = None \<and> (\<exists>k\<le>length q. x = take k q)"
    unfolding grown_along_def by (elim conjE allE)
  ultimately have "nodes w x = None" by simp
  with assms(2) show False by simp
qed

lemma Stat_grown_same:
  assumes wf: "well_formed w" and g: "grown_along q w w1" and n: "nodes w p \<noteq> None"
  shows "Stat p w1 = Stat p w"
proof (rule Stat_cong)
  show "privileged w1 = privileged w" using g by (simp add: grown_along_def)
  show "\<forall>k\<le>length p. nodes w1 (take k p) = nodes w (take k p)"
  proof (intro allI impI)
    fix k assume k: "k \<le> length p"
    have "nodes w (take k p) \<noteq> None"
    proof (cases "k < length p")
      case True
      from n obtain nd where "nodes w p = Some nd" by blast
      from well_formed_prefix [OF wf this True] show ?thesis by auto
    next
      case False
      with k have "take k p = p" by simp
      with n show ?thesis by simp
    qed
    with g show "nodes w1 (take k p) = nodes w (take k p)" by (rule grown_along_kept)
  qed
qed

lemma take_butlast_neq:
  assumes "p \<noteq> []"
  shows "take k (butlast p) \<noteq> p"
proof
  assume "take k (butlast p) = p"
  then have "length (take k (butlast p)) = length p" by simp
  moreover have "length (take k (butlast p)) \<le> length p - 1" by simp
  moreover have "0 < length p" using assms by simp
  ultimately show False by linarith
qed

lemma MkdirAll_twice:
  "well_formed w \<Longrightarrow> MkdirAll p perm w = (r, w') \<Longrightarrow> MkdirAll p perm w' = (r, w')"
proof (induction p perm w arbitrary: r w' rule: MkdirAll.induct)
  case (1 p perm w)
  note wf = "1.prems"(1) and run = "1.prems"(2)
  show ?case
  proof (cases "Stat p w")
    case (Inr n)
    with run have "w' = w"
      by (cases n) (auto simp: MkdirAll_fast_dir MkdirAll_fast_file)
    with run show ?thesis by simp
  next
    case (Inl e0)
    obtain err w1 where ps: "parent_step p perm w = (err, w1)" by (cases "parent_step p perm w")
    have g1: "grown_along (butlast p) w w1"
    proof (cases "1 < length p")
      case True
      with ps have "MkdirAll (butlast p) perm w = (err, w1)" by (simp add: parent_step_def)
      then show ?thesis by (rule MkdirAll_grown)
    next
      case False
      with ps have "w1 = w" by (simp add: parent_step_def)
      then show ?thesis by (simp add: grown_along_refl)
    qed
    have stable: "parent_step p perm w1 = (err, w1)"
    proof (cases "1 < length p")
      case True
      with ps have "MkdirAll (butlast p) perm w = (err, w1)" by (simp add: parent_step_def)
      from "1.IH" [OF Inl True wf this] True show ?thesis by (simp add: parent_step_def)
    next
      case False
      with ps show ?thesis by (simp add: parent_step_def)
    qed
    show ?thesis
    proof (cases err)
      case (Some e)
      with run MkdirAll_slow [OF Inl, of perm] ps have res: "r = Some e" "w' = w1" by simp_all
      from Some ps have long: "1 < length p" by (auto simp: parent_step_def split: if_splits)
      have "\<exists>e1. Stat p w1 = Inl e1"
      proof (cases "Stat p w1")
        case (Inl e1)
        then show ?thesis by blast
      next
        case (Inr n)
        then have anc: "\<forall>k<length p. \<exists>s wr. nodes w1 (take k p) = Some (Dir s wr) \<and> (s \<or> privileged w1)"
          by (simp add: Stat_Inr_iff)
        have bl: "butlast p = take (length p - 1) p" by (rule butlast_conv_take)
        have "length p - 1 < length p" using long by simp
        from anc [rule_format, OF this] bl
        obtain s wr where pn: "nodes w1 (butlast p) = Some (Dir s wr)" by auto
        have "\<forall>k<length (butlast p). \<exists>s wr. nodes w1 (take k (butlast p)) = Some (Dir s wr) \<and> (s \<or> privileged w1)"
        proof (intro allI impI)
          fix k assume k: "k < length (butlast p)"
          then have "take k (butlast p) = take k p" by (simp add: take_butlast)
          moreover from k have "k < length p" by simp
          ultimately show "\<exists>s wr. nodes w1 (take k (butlast p)) = Some (Dir s wr) \<and> (s \<or> privileged w1)"
            using anc by simp
        qed
        with pn have "Stat (butlast p) w1 = Inr (Dir s wr)" by (simp add: Stat_Inr_iff)
        then have "MkdirAll (butlast p) perm w1 = (None, w1)" by (rule MkdirAll_fast_dir)
        with stable long Some show ?thesis by (simp add: parent_step_def)
      qed
      then obtain e1 where "Stat p w1 = Inl e1" ..
      from MkdirAll_slow [OF this, of perm] stable Some res show ?thesis by simp
    next
      case None
      with run MkdirAll_slow [OF Inl, of perm] ps have ms: "mkdir_step p perm w1 = (r, w')" by simp
      show ?thesis
      proof (cases r)
        case None
        with ms obtain s wr where "Stat p w' = Inr (Dir s wr)" using mkdir_step_None by blast
        then have "MkdirAll p perm w' = (None, w')" by (rule MkdirAll_fast_dir)
        with None show ?thesis by simp
      next
        case (Some e)
        with ms mkdir_step_Some have w': "w' = w1" and nodir: "\<forall>s wr. Stat p w1 \<noteq> Inr (Dir s wr)"
          by blast+
        have "\<exists>e1. Stat p w1 = Inl e1"
        proof (cases "Stat p w1")
          case (Inl e1)
          then show ?thesis by blast
        next
          case (Inr n)
          then have nn: "nodes w1 p = Some n" by (simp add: Stat_Inr_iff)
          have pne: "p \<noteq> []"
          proof
            assume "p = []"
            with ps have "w1 = w" by (simp add: parent_step_def)
            with Inr Inl show False by simp
          qed
          have "nodes w p = nodes w1 p"
          proof (rule ccontr)
            assume "nodes w p \<noteq> nodes w1 p"
            then have "nodes w1 p \<noteq> nodes w p" by simp
            with g1 obtain k where "p = take k (butlast p)" unfolding grown_along_def by blast
            with take_butlast_neq [OF pne, of k] show False by simp
          qed
          with nn have "nodes w p \<noteq> None" by simp
          from Stat_grown_same [OF wf g1 this] Inr Inl show ?thesis by simp
        qed
        then obtain e1 where "Stat p w1 = Inl e1" ..
        from MkdirAll_slow [OF this, of perm] stable None ms w' show ?thesis by simp
      qed
    qed
  qed
qed

section \<open>Lemmas on the file connection\<close>

lemma walk_Inr_node: "walk ns priv cur rest = Inr n \<Longrightarrow> ns (cur @ rest) = Some n"
proof (induction rest arbitrary: cur)
  case Nil
  then show ?case by (simp split: option.splits)
next
  case (Cons c cs)
  from Cons.prems have "walk ns priv (cur @ [c]) cs = Inr n"
    by (simp split: option.splits node.splits if_splits)
  from Cons.IH [OF this] show ?case by simp
qed

lemma take_length_take: "take (length (take k xs)) xs = take k xs"
  by (cases "k \<le> length xs") (simp_all add: min_def)

lemma Stat_Inr_node: "Stat p w = Inr n \<Longrightarrow> nodes w p = Some n"
  unfolding Stat_def using walk_Inr_node [of "nodes w" "privileged w" "[]" p n] by simp

lemma next_transfer_frame:
  "nodes (snd (next_transfer w)) = nodes w" "privileged (snd (next_transfer w)) = privileged w"
  by (simp_all add: next_transfer_def)

lemma Stat_next_transfer: "Stat p (snd (next_transfer w)) = Stat p w"
  by (simp add: Stat_def next_transfer_frame)

lemma Open_RDONLY_Inr:
  assumes "Open name O_RDONLY perm w = (Inr fd, w1)"
  shows "\<exists>content. Stat name w = Inr (File content) \<and> nodes w1 name = Some (File content) \<and>
           fd = \<lparr>fd_path = name, fd_pos = 0\<rparr>"
proof -
  obtain t w0 where nt: "next_transfer w = (t, w0)" by (cases "next_transfer w")
  then have w0: "w0 = snd (next_transfer w)" by simp
  have st: "Stat name w0 = Stat name w" unfolding w0 by (rule Stat_next_transfer)
  from assms nt obtain content where c: "Stat name w0 = Inr (File content)"
    and fd: "fd = \<lparr>fd_path = name, fd_pos = 0\<rparr>" and w1: "w1 = w0"
    by (auto simp: Open_def O_RDONLY_def O_TRUNC_def O_CREAT_def
        split: option.splits sum.splits node.splits if_splits)
  from c have "nodes w0 name = Some (File content)" by (rule Stat_Inr_node)
  with c fd w1 st show ?thesis by simp
qed

lemma Size_fd_Inr:
  assumes "Size_fd fd w = (Inr n, w1)"
  shows "\<exists>content. nodes w (fd_path fd) = Some (File content) \<and> n = int (length content) \<and>
           nodes w1 = nodes w"
  using assms
  by (auto simp: Size_fd_def next_transfer_def split: option.splits node.splits prod.splits)

lemma Read_file:
  assumes "nodes w (fd_path fd) = Some (File content)"
    and "Read fd plen w = ((data, err), fd1, w1)"
  shows "data = take (min (fst (transfers w 0)) plen) (drop (fd_pos fd) content) \<and>
         fd_path fd1 = fd_path fd \<and> fd_pos fd1 = fd_pos fd + length data \<and> nodes w1 = nodes w"
  using assms by (auto simp: Read_def next_transfer_def Let_def split: prod.splits)

lemma Read_error_kind:
  assumes "Read fd plen w = ((data, Some e), fd1, w1)"
  shows "\<exists>x. e = PathError x"
  using assms
  by (auto simp: Read_def next_transfer_def Let_def split: prod.splits option.splits node.splits)

lemma loop_inv_step:
  assumes inv: "loop_inv fd b start remaining w content"
    and rd: "Read fd (length (elems b) - start) w = ((data, err), fd1, w1)"
  shows "loop_inv fd1 (store_at b start data) (start + length data) (remaining - int (length data)) w1 content"
proof -
  from inv have n: "nodes w (fd_path fd) = Some (File content)" and pos: "fd_pos fd = start"
    and rem: "remaining = int (length content) - int start" and sb: "start \<le> length (elems b)"
    and len: "length (elems b) + length (spare b) = length content"
    and tk: "take start (elems b) = take start content"
    by (simp_all add: loop_inv_def)
  from Read_file [OF n rd] pos
  have data: "data = take (min (fst (transfers w 0)) (length (elems b) - start)) (drop start content)"
    and p1: "fd_path fd1 = fd_path fd" and pos1: "fd_pos fd1 = start + length data"
    and n1: "nodes w1 = nodes w" by simp_all
  have dl: "length data \<le> length (elems b) - start" using data by simp
  have dc: "data = take (length data) (drop start content)"
    unfolding data by (simp only: take_length_take)
  have fits: "start + length data \<le> length (elems b)" using dl sb by linarith
  have l1: "length (elems (store_at b start data)) = length (elems b)"
    using fits by (simp add: store_at_def)
  have sp: "spare (store_at b start data) = spare b" by (simp add: store_at_def)
  have "take (start + length data) (elems (store_at b start data)) = take start (elems b) @ data"
    using fits by (simp add: store_at_def)
  also have "\<dots> = take start content @ take (length data) (drop start content)"
    using tk dc by simp
  also have "\<dots> = take (start + length data) content"
    by (simp add: take_add)
  finally have t1: "take (start + length data) (elems (store_at b start data)) = take (start + length data) content" .
  show ?thesis
    unfolding loop_inv_def using n n1 p1 pos1 rem fits len l1 sp t1 by auto
qed

lemma GetObject_loop_result:
  assumes "GetObject_loop fd b start remaining w = Some y"
  shows "\<forall>content. loop_inv fd b start remaining w content \<longrightarrow>
           fst y = None \<longrightarrow> backing (fst (snd y)) = content"
proof (rule GetObject_loop.raw_induct
    [where P = "\<lambda>fd b start remaining w y. \<forall>content. loop_inv fd b start remaining w content \<longrightarrow>
           fst y = None \<longrightarrow> backing (fst (snd y)) = content", OF _ assms], goal_cases)
  case (1 loop fd b start remaining w y)
  show ?case
  proof (intro allI impI)
    fix content
    assume inv: "loop_inv fd b start remaining w content" and ok: "fst y = None"
    show "backing (fst (snd y)) = content"
    proof (cases "0 < remaining")
      case False
      with 1(2) have y: "y = (None, b, w)" by simp
      from inv False have a: "length content \<le> start" "start \<le> length (elems b)"
        "length (elems b) + length (spare b) = length content"
        "take start (elems b) = take start content"
        by (simp_all add: loop_inv_def)
      then have "spare b = []" by simp
      moreover from a have "elems b = content" by simp
      ultimately have "backing b = content" by (simp add: backing_def)
      with y show ?thesis by simp
    next
      case True
      from inv have sb: "\<not> length (elems b) < start" by (simp add: loop_inv_def)
      obtain data err fd1 w1 where rd: "Read fd (length (elems b) - start) w = ((data, err), fd1, w1)"
        by (metis prod.exhaust)
      note inv1 = loop_inv_step [OF inv rd]
      show ?thesis
      proof (cases err)
        case None
        with 1(2) True sb rd
        have "loop fd1 (store_at b start data) (start + length data) (remaining - int (length data)) w1 = Some y"
          by simp
        from 1(1) [OF this] inv1 ok show ?thesis by blast
      next
        case (Some e)
        with 1(2) True sb rd have "y = (Some e, store_at b start data, w1)" by simp
        with ok show ?thesis by simp
      qed
    qed
  qed
qed

lemma GetObject_loop_error_kind:
  assumes "GetObject_loop fd b start remaining w = Some y"
  shows "\<forall>n m. fst y \<noteq> Some (FileHasWrongSize n m)"
proof (rule GetObject_loop.raw_induct
    [where P = "\<lambda>fd b start remaining w y. \<forall>n m. fst y \<noteq> Some (FileHasWrongSize n m)",
     OF _ assms], goal_cases)
  case (1 loop fd b start remaining w y)
  show ?case
  proof (cases "0 < remaining \<and> \<not> length (elems b) < start")
    case False
    with 1(2) show ?thesis by (auto split: if_splits)
  next
    case True
    obtain data err fd1 w1 where rd: "Read fd (length (elems b) - start) w = ((data, err), fd1, w1)"
      by (metis prod.exhaust)
    show ?thesis
    proof (cases err)
      case None
      with 1(2) True rd
      have "loop fd1 (store_at b start data) (start + length data) (remaining - int (length data)) w1 = Some y"
        by simp
      from 1(1) [OF this] show ?thesis .
    next
      case (Some e)
      with 1(2) True rd have y: "y = (Some e, store_at b start data, w1)" by simp
      from rd Some obtain x where "e = PathError x" using Read_error_kind by blast
      with y show ?thesis by simp
    qed
  qed
qed

lemmas example_defs = example_world_def example_conn_def example_Join_def Open_def Size_fd_def Read_def Write_def
  next_transfer_def Stat_def O_RDONLY_def O_WRONLY_def O_CREAT_def O_TRUNC_def create_file_def cap_def store_at_def Let_def

lemma GetObject_example_fill: "GetObject example_Join example_conn ''obj'' 7 \<lparr>elems = [0, 0, 0], spare = []\<rparr> example_world
    = Some (None, \<lparr>elems = [1, 2, 3], spare = []\<rparr>, example_world)"
  unfolding GetObject_def
  apply (simp add: example_defs)
  apply (subst GetObject_loop.simps, simp add: example_defs)
  apply (subst GetObject_loop.simps, simp add: example_defs)
  apply (subst GetObject_loop.simps, simp add: example_defs)
  apply (subst GetObject_loop.simps, simp add: example_defs)
  done

lemma GetObject_example_wrong_size: "GetObject example_Join example_conn ''obj'' 7 \<lparr>elems = [0, 0, 0], spare = [0]\<rparr> example_world
    = Some (Some (FileHasWrongSize 4 3), \<lparr>elems = [0, 0, 0], spare = [0]\<rparr>, example_world)"
  unfolding GetObject_def
  by (simp add: example_defs)

section \<open>The claims\<close>

subsection \<open>The file connection\<close>

text \<open>
  Claim C1. For every key, id and non-empty buffer, \<open>PutObject\<close> writes exactly
  \<open>len(buffer)\<close> bytes under the key, draining the buffer over repeated \<open>Write\<close> calls
  even when a call accepts only part of it, and returns \<open>nil\<close> only when all bytes are
  written.

  The loop returns at \<open>err == nil\<close>, that is after the first call that reports no
  error, whatever its count. On a device that takes one byte per call, a buffer of two
  bytes gives \<open>nil\<close> with one byte in the file.
\<close>

theorem PutObject_returns_nil_after_partial_write:
  "PutObject example_Join example_conn ''new'' 7 [10, 20] example_world
    = Some (None, example_world\<lparr>nodes := (nodes example_world)([''mnt'', ''bench'', ''new''] \<mapsto> File [10])\<rparr>)"
  unfolding PutObject_def
  apply (simp add: example_defs)
  apply (subst PutObject_loop.simps, simp add: example_defs)
  done

text \<open>
  Claim C2. \<open>GetObject\<close> returns an error, never \<open>nil\<close>, whenever the size of the stored
  object differs from \<open>cap(buffer)\<close>; when it returns \<open>nil\<close>, the sizes match and the
  buffer holds the stored content up to its capacity.
\<close>

theorem GetObject_size_check_and_fill:
  "(\<forall>content. stored_object w (Join [root conn, dir conn, key]) = Some content \<and>
        length content \<noteq> cap buffer \<longrightarrow>
        (\<exists>e w'. GetObject Join conn key ident buffer w = Some (Some e, buffer, w'))) \<and>
   (\<forall>buffer' w'. GetObject Join conn key ident buffer w = Some (None, buffer', w') \<longrightarrow>
        (\<exists>content. stored_object w (Join [root conn, dir conn, key]) = Some content \<and>
           length content = cap buffer \<and> backing buffer' = content))"
proof (intro conjI allI impI)
  fix content
  assume a: "stored_object w (Join [root conn, dir conn, key]) = Some content \<and> length content \<noteq> cap buffer"
  let ?name = "Join [root conn, dir conn, key]"
  from a have nw: "nodes w ?name = Some (File content)"
    by (auto simp: stored_object_def split: option.splits node.splits)
  obtain r w1 where op: "Open ?name O_RDONLY 420 w = (r, w1)" by (cases "Open ?name O_RDONLY 420 w")
  show "\<exists>e w'. GetObject Join conn key ident buffer w = Some (Some e, buffer, w')"
  proof (cases r)
    case (Inl e)
    with op show ?thesis by (simp add: GetObject_def)
  next
    case (Inr fd)
    from Open_RDONLY_Inr [OF op [unfolded Inr]] obtain c where
      st: "Stat ?name w = Inr (File c)" and n1: "nodes w1 ?name = Some (File c)"
      and fd: "fd = \<lparr>fd_path = ?name, fd_pos = 0\<rparr>" by blast
    from st have "nodes w ?name = Some (File c)" by (rule Stat_Inr_node)
    with nw have c: "c = content" by simp
    obtain s w2 where sz: "Size_fd fd w1 = (s, w2)" by (cases "Size_fd fd w1")
    show ?thesis
    proof (cases s)
      case (Inl e)
      with op Inr sz show ?thesis by (simp add: GetObject_def)
    next
      case (Inr n)
      from Size_fd_Inr [OF sz [unfolded Inr]] n1 fd c have "n = int (length content)" by auto
      with a have "int (cap buffer) \<noteq> n" by auto
      with op \<open>r = Inr fd\<close> sz Inr show ?thesis by (simp add: GetObject_def)
    qed
  qed
next
  fix buffer' w'
  assume g: "GetObject Join conn key ident buffer w = Some (None, buffer', w')"
  let ?name = "Join [root conn, dir conn, key]"
  obtain r w1 where op: "Open ?name O_RDONLY 420 w = (r, w1)" by (cases "Open ?name O_RDONLY 420 w")
  from g op obtain fd where r: "r = Inr fd" by (cases r) (auto simp: GetObject_def)
  from Open_RDONLY_Inr [OF op [unfolded r]] obtain content where
    st: "Stat ?name w = Inr (File content)" and n1: "nodes w1 ?name = Some (File content)"
    and fd: "fd = \<lparr>fd_path = ?name, fd_pos = 0\<rparr>" by blast
  from st have "nodes w ?name = Some (File content)" by (rule Stat_Inr_node)
  then have so: "stored_object w ?name = Some content" by (simp add: stored_object_def)
  obtain s w2 where sz: "Size_fd fd w1 = (s, w2)" by (cases "Size_fd fd w1")
  from g op r sz obtain n where s: "s = Inr n" by (cases s) (auto simp: GetObject_def)
  from Size_fd_Inr [OF sz [unfolded s]] n1 fd have n: "n = int (length content)" and n2: "nodes w2 = nodes w1"
    by auto
  from g op r sz s have eq: "int (cap buffer) = n" and
    loop: "GetObject_loop fd buffer 0 n w2 = Some (None, buffer', w')"
    by (auto simp: GetObject_def split: if_splits)
  have "loop_inv fd buffer 0 n w2 content"
    using n1 n2 fd n eq by (simp add: loop_inv_def cap_def)
  with GetObject_loop_result [OF loop] have "backing buffer' = content" by auto
  with so eq n show "\<exists>content. stored_object w ?name = Some content \<and> length content = cap buffer \<and> backing buffer' = content"
    by auto
qed

theorem GetObject_size_check_and_fill_witness:
  "stored_object example_world (example_Join [root example_conn, dir example_conn, ''obj'']) = Some [1, 2, 3] \<and>
   length [1, 2, 3 :: byte] \<noteq> cap \<lparr>elems = [0, 0, 0], spare = [0]\<rparr> \<and>
   (\<exists>e w'. GetObject example_Join example_conn ''obj'' 7 \<lparr>elems = [0, 0, 0], spare = [0]\<rparr> example_world
       = Some (Some e, \<lparr>elems = [0, 0, 0], spare = [0]\<rparr>, w')) \<and>
   GetObject example_Join example_conn ''obj'' 7 \<lparr>elems = [0, 0, 0], spare = []\<rparr> example_world
       = Some (None, \<lparr>elems = [1, 2, 3], spare = []\<rparr>, example_world) \<and>
   (\<exists>content. stored_object example_world (example_Join [root example_conn, dir example_conn, ''obj'']) = Some content \<and>
       length content = cap \<lparr>elems = [0, 0, 0], spare = []\<rparr> \<and>
       backing \<lparr>elems = [1, 2, 3], spare = []\<rparr> = content)"
proof -
  let ?b3 = "\<lparr>elems = [0, 0, 0], spare = []\<rparr> :: buffer"
  let ?b4 = "\<lparr>elems = [0, 0, 0], spare = [0]\<rparr> :: buffer"
  let ?name = "example_Join [root example_conn, dir example_conn, ''obj'']"
  have st: "stored_object example_world ?name = Some [1, 2, 3]"
    by (simp add: stored_object_def example_defs)
  have ne: "length [1, 2, 3 :: byte] \<noteq> cap ?b4" by (simp add: cap_def)
  from GetObject_size_check_and_fill
    [where Join = example_Join and conn = example_conn and key = "''obj''"
       and w = example_world and ident = 7 and buffer = ?b4] st ne
  have a: "\<exists>e w'. GetObject example_Join example_conn ''obj'' 7 ?b4 example_world = Some (Some e, ?b4, w')"
    by blast
  from GetObject_size_check_and_fill
    [where Join = example_Join and conn = example_conn and key = "''obj''"
       and w = example_world and ident = 7 and buffer = ?b3] GetObject_example_fill
  have b: "\<exists>content. stored_object example_world ?name = Some content \<and> length content = cap ?b3 \<and>
       backing \<lparr>elems = [1, 2, 3], spare = []\<rparr> = content"
    by blast
  from st ne a GetObject_example_fill b show ?thesis by blast
qed

text \<open>
  Claim C8. When \<open>GetObject\<close> returns an error because the size of the stored object
  differs from \<open>cap(buffer)\<close>, or because the file cannot be opened, the caller's buffer
  is as it was: the size check comes before any read into the buffer.
\<close>

theorem GetObject_error_leaves_buffer:
  assumes "GetObject Join conn key ident buffer w = Some (Some e, buffer', w')"
    and "(\<exists>e0 w1. Open (Join [root conn, dir conn, key]) O_RDONLY 420 w = (Inl e0, w1)) \<or>
         (\<exists>n m. e = FileHasWrongSize n m)"
  shows "buffer' = buffer"
proof -
  let ?name = "Join [root conn, dir conn, key]"
  obtain r w1 where op: "Open ?name O_RDONLY 420 w = (r, w1)" by (cases "Open ?name O_RDONLY 420 w")
  show ?thesis
  proof (cases r)
    case (Inl e0)
    with op assms(1) show ?thesis by (simp add: GetObject_def)
  next
    case (Inr fd)
    with op assms(2) obtain n m where e: "e = FileHasWrongSize n m" by auto
    obtain s w2 where sz: "Size_fd fd w1 = (s, w2)" by (cases "Size_fd fd w1")
    show ?thesis
    proof (cases s)
      case (Inl e1)
      with op Inr sz assms(1) show ?thesis by (simp add: GetObject_def)
    next
      case (Inr k)
      show ?thesis
      proof (cases "int (cap buffer) = k")
        case False
        with op \<open>r = Inr fd\<close> sz Inr assms(1) show ?thesis by (simp add: GetObject_def)
      next
        case True
        with op \<open>r = Inr fd\<close> sz Inr assms(1)
        have loop: "GetObject_loop fd buffer 0 k w2 = Some (Some e, buffer', w')"
          by (simp add: GetObject_def)
        with GetObject_loop_error_kind [OF loop] e show ?thesis by auto
      qed
    qed
  qed
qed

lemma GetObject_example_missing:
  "Open (example_Join [root example_conn, dir example_conn, ''gone'']) O_RDONLY 420 example_world
     = (Inl (PathError ENOENT), example_world) \<and>
   GetObject example_Join example_conn ''gone'' 7 \<lparr>elems = [0, 0, 0], spare = []\<rparr> example_world
     = Some (Some (PathError ENOENT), \<lparr>elems = [0, 0, 0], spare = []\<rparr>, example_world)"
  unfolding GetObject_def by (simp add: example_defs)

theorem GetObject_error_leaves_buffer_witness:
  "GetObject example_Join example_conn ''obj'' 7 \<lparr>elems = [0, 0, 0], spare = [0]\<rparr> example_world
     = Some (Some (FileHasWrongSize 4 3), \<lparr>elems = [0, 0, 0], spare = [0]\<rparr>, example_world) \<and>
   (\<exists>n m. FileHasWrongSize 4 3 = FileHasWrongSize n m) \<and>
   GetObject example_Join example_conn ''gone'' 7 \<lparr>elems = [0, 0, 0], spare = []\<rparr> example_world
     = Some (Some (PathError ENOENT), \<lparr>elems = [0, 0, 0], spare = []\<rparr>, example_world) \<and>
   (\<exists>e0 w1. Open (example_Join [root example_conn, dir example_conn, ''gone'']) O_RDONLY 420 example_world
     = (Inl e0, w1)) \<and>
   (\<lparr>elems = [0, 0, 0], spare = [0]\<rparr> :: buffer) = \<lparr>elems = [0, 0, 0], spare = [0]\<rparr> \<and>
   (\<lparr>elems = [0, 0, 0], spare = []\<rparr> :: buffer) = \<lparr>elems = [0, 0, 0], spare = []\<rparr>"
proof -
  have d1: "(\<exists>e0 w1. Open (example_Join [root example_conn, dir example_conn, ''obj'']) O_RDONLY 420 example_world
        = (Inl e0, w1)) \<or> (\<exists>n m. FileHasWrongSize 4 3 = FileHasWrongSize n m)"
    by blast
  have o2: "\<exists>e0 w1. Open (example_Join [root example_conn, dir example_conn, ''gone'']) O_RDONLY 420 example_world
        = (Inl e0, w1)"
    using GetObject_example_missing by blast
  then have d2: "(\<exists>e0 w1. Open (example_Join [root example_conn, dir example_conn, ''gone'']) O_RDONLY 420 example_world
        = (Inl e0, w1)) \<or> (\<exists>n m. PathError ENOENT = FileHasWrongSize n m)"
    by blast
  note k1 = GetObject_error_leaves_buffer [OF GetObject_example_wrong_size d1]
  note k2 = GetObject_error_leaves_buffer [OF conjunct2 [OF GetObject_example_missing] d2]
  from GetObject_example_wrong_size GetObject_example_missing o2 k1 k2 show ?thesis by blast
qed

text \<open>
  Claim C7. \<open>CreateDirectory\<close> is idempotent: when the directory is already there it
  returns \<open>nil\<close> and changes nothing, and a second call in sequence gives the result
  of the first and leaves the state of the first. The file system is well formed.
\<close>

theorem CreateDirectory_idempotent:
  assumes "well_formed w"
  shows "((\<exists>s wr. Stat (Join [root conn, dir conn]) w = Inr (Dir s wr)) \<longrightarrow>
            CreateDirectory Join conn w = (None, w)) \<and>
         (\<forall>r w'. CreateDirectory Join conn w = (r, w') \<longrightarrow> CreateDirectory Join conn w' = (r, w'))"
proof (intro conjI allI impI)
  assume "\<exists>s wr. Stat (Join [root conn, dir conn]) w = Inr (Dir s wr)"
  then show "CreateDirectory Join conn w = (None, w)"
    unfolding CreateDirectory_def using MkdirAll_fast_dir by blast
next
  fix r w'
  assume "CreateDirectory Join conn w = (r, w')"
  then show "CreateDirectory Join conn w' = (r, w')"
    unfolding CreateDirectory_def using MkdirAll_twice [OF assms] by blast
qed

lemma example_world_well_formed: "well_formed example_world"
  unfolding well_formed_def
proof (intro allI impI)
  fix p n k
  assume a: "nodes example_world p = Some n \<and> k < length p"
  then have "p = [] \<or> p = [''mnt''] \<or> p = [''mnt'', ''bench''] \<or> p = [''mnt'', ''bench'', ''obj'']"
    by (auto simp: example_world_def split: if_splits)
  moreover have "k = 0 \<or> k = 1 \<or> k = 2 \<or> 3 \<le> k" by linarith
  ultimately show "\<exists>s wr. nodes example_world (take k p) = Some (Dir s wr)"
    using a by (auto simp: example_world_def)
qed

lemma CreateDirectory_example_new:
  "CreateDirectory example_Join \<lparr>root = ''mnt'', dir = ''run1''\<rparr> example_world
     = (None, example_world\<lparr>nodes := (nodes example_world)([''mnt'', ''run1''] \<mapsto> Dir False True)\<rparr>)"
  unfolding CreateDirectory_def
  apply (subst MkdirAll.simps, simp add: example_defs)
  apply (subst MkdirAll.simps, simp add: example_defs)
  apply (simp add: Mkdir_def example_defs)
  done

theorem CreateDirectory_idempotent_witness:
  "well_formed example_world \<and>
   (\<exists>s wr. Stat (example_Join [root example_conn, dir example_conn]) example_world = Inr (Dir s wr)) \<and>
   CreateDirectory example_Join example_conn example_world = (None, example_world) \<and>
   CreateDirectory example_Join \<lparr>root = ''mnt'', dir = ''run1''\<rparr> example_world
     = (None, example_world\<lparr>nodes := (nodes example_world)([''mnt'', ''run1''] \<mapsto> Dir False True)\<rparr>) \<and>
   CreateDirectory example_Join \<lparr>root = ''mnt'', dir = ''run1''\<rparr>
       (example_world\<lparr>nodes := (nodes example_world)([''mnt'', ''run1''] \<mapsto> Dir False True)\<rparr>)
     = (None, example_world\<lparr>nodes := (nodes example_world)([''mnt'', ''run1''] \<mapsto> Dir False True)\<rparr>)"
proof -
  have "Stat (example_Join [root example_conn, dir example_conn]) example_world = Inr (Dir True True)"
    by (simp add: example_defs)
  then have st: "\<exists>s wr. Stat (example_Join [root example_conn, dir example_conn]) example_world = Inr (Dir s wr)"
    by blast
  note thm1 = CreateDirectory_idempotent
    [OF example_world_well_formed, where Join = example_Join and conn = example_conn]
  note thm2 = CreateDirectory_idempotent
    [OF example_world_well_formed, where Join = example_Join and conn = "\<lparr>root = ''mnt'', dir = ''run1''\<rparr>"]
  from thm1 st have a: "CreateDirectory example_Join example_conn example_world = (None, example_world)"
    by blast
  from thm2 CreateDirectory_example_new
  have b: "CreateDirectory example_Join \<lparr>root = ''mnt'', dir = ''run1''\<rparr>
       (example_world\<lparr>nodes := (nodes example_world)([''mnt'', ''run1''] \<mapsto> Dir False True)\<rparr>)
     = (None, example_world\<lparr>nodes := (nodes example_world)([''mnt'', ''run1''] \<mapsto> Dir False True)\<rparr>)"
    by blast
  from example_world_well_formed st a CreateDirectory_example_new b show ?thesis by blast
qed

subsection \<open>The order that \<open>startRun\<close> builds\<close>

text \<open>
  Claim C3. Every order built by \<open>startRun\<close> from validated arguments satisfies
  \<open>rangeEnd > rangeStart\<close>, also for an object count of zero.

  \<open>validateArguments\<close> does not look at the object count; a count of zero passes and
  gives the empty range from 0 to 0.
\<close>

theorem startRun_empty_range_counterexample:
  "fst (validateArguments (default_args\<lparr>Objects := 0\<rparr>)) = None \<and>
   \<not> (RangeStart (startRun_order (snd (validateArguments (default_args\<lparr>Objects := 0\<rparr>))) 0)
        < RangeEnd (startRun_order (snd (validateArguments (default_args\<lparr>Objects := 0\<rparr>))) 0))"
  by code_simp

text \<open>
  Claim C3 as amended: for validated arguments the order has \<open>rangeStart = 0\<close> and
  \<open>rangeEnd = uint64(args.Objects)\<close>, and \<open>rangeEnd > rangeStart\<close> holds exactly when
  the object count is not zero.
\<close>

theorem startRun_range:
  assumes "validateArguments args = (None, args')"
  shows "RangeStart (startRun_order args' now) = 0 \<and>
         RangeEnd (startRun_order args' now) = Objects args \<and>
         (RangeStart (startRun_order args' now) < RangeEnd (startRun_order args' now) \<longleftrightarrow> Objects args \<noteq> 0)"
proof -
  have "Objects args' = Objects args"
    using assms unfolding validateArguments_def
    by (auto split: if_splits option.splits simp: Let_def)
  then show ?thesis
    by (auto simp: startRun_order_def Let_def word_greater_zero_iff)
qed

theorem startRun_range_witness:
  "validateArguments default_args = (None, default_args\<lparr>SizeInBytes := 1048576\<rparr>) \<and>
   RangeStart (startRun_order (default_args\<lparr>SizeInBytes := 1048576\<rparr>) 0) = 0 \<and>
   RangeEnd (startRun_order (default_args\<lparr>SizeInBytes := 1048576\<rparr>) 0) = 1000 \<and>
   RangeStart (startRun_order (default_args\<lparr>SizeInBytes := 1048576\<rparr>) 0)
     < RangeEnd (startRun_order (default_args\<lparr>SizeInBytes := 1048576\<rparr>) 0)"
proof -
  have v: "validateArguments default_args = (None, default_args\<lparr>SizeInBytes := 1048576\<rparr>)"
    by code_simp
  have o: "Objects default_args = 1000" by (simp add: default_args_def)
  show ?thesis using v startRun_range [OF v, of 0] o by simp
qed

text \<open>
  Claim C4. The \<open>jobId\<close> of the order is unique per run: two successive runs get
  distinct, increasing values.

  \<open>startRun\<close> assigns the constant 1: two runs, started a minute apart, carry the same
  \<open>jobId\<close>.
\<close>

theorem startRun_jobId_repeats_counterexample:
  "\<not> (JobId (startRun_order default_args 1700000000) < JobId (startRun_order default_args 1700000060)) \<and>
   JobId (startRun_order default_args 1700000000) = JobId (startRun_order default_args 1700000060)"
  by (simp add: startRun_order_def Let_def)

text \<open>
  Claim C4 as amended: the order that \<open>startRun\<close> builds has \<open>jobId\<close> 1, whatever the
  arguments and the time.
\<close>

theorem startRun_jobId_constant: "JobId (startRun_order args now) = 1"
  by (simp add: startRun_order_def Let_def)

text \<open>
  Claim C5. Every order built by \<open>startRun\<close> from validated arguments has
  \<open>objectSize > 0\<close>, since \<open>validateArguments\<close> accepts only sizes of at least 1024 bytes.

  The product is taken in \<open>uint64\<close>: the size \<open>17592186044416M\<close> (2 to the 44
  mebibytes) passes and gives 2 to the 64, that is 0.
\<close>

theorem validated_objectSize_zero_counterexample:
  "fst (validateArguments (default_args\<lparr>Size := ''17592186044416M''\<rparr>)) = None \<and>
   ObjectSize (startRun_order (snd (validateArguments (default_args\<lparr>Size := ''17592186044416M''\<rparr>))) 0) = 0"
  by code_simp

text \<open>
  Claim C5 as amended: for validated arguments whose number, times the multiplier of
  its unit, is below 2 to the 64, the order has \<open>objectSize\<close> equal to that product,
  which is at least 1024 and so greater than 0.
\<close>

theorem validated_objectSize_positive:
  assumes "validateArguments args = (None, args')"
    and "FindStringSubmatch (Size args) = Some groups"
    and "decimal (groups ! 1) * unit_multiplier (hd (groups ! 2)) < 2 ^ 64"
  shows "0 < ObjectSize (startRun_order args' now) \<and>
         1024 \<le> uint (ObjectSize (startRun_order args' now)) \<and>
         uint (ObjectSize (startRun_order args' now)) =
           decimal (groups ! 1) * unit_multiplier (hd (groups ! 2))"
proof -
  from assms(1) have ports: "ports_in_range args"
    using validateArguments_None by blast
  from assms(2) obtain d ds u where g: "groups = [d # ds @ [u], d # ds, [u]]"
    and p: "is_nonzero_digit d" "list_all is_digit ds" "is_unit u"
    using FindStringSubmatch_Some by blast
  let ?n = "decimal (d # ds)"
  have n1: "1 \<le> ?n" using p(1,2) by (rule decimal_token_pos)
  have small: "?n * unit_multiplier u < 2 ^ 64" using assms(3) g by simp
  have mn: "min ?n (2 ^ 63 - 1) = ?n" and big: "1024 \<le> ?n * unit_multiplier u"
    using product_small [OF n1 small] by simp_all
  have "validateArguments args =
          (None, args\<lparr>SizeInBytes := word_of_int (min ?n (2 ^ 63 - 1) * unit_multiplier u)\<rparr>)"
    using assms(2) g ports p by (intro validateArguments_groups) simp_all
  with assms(1) mn have "SizeInBytes args' = word_of_int (?n * unit_multiplier u)"
    by auto
  then have os: "ObjectSize (startRun_order args' now) = word_of_int (?n * unit_multiplier u)"
    by (simp add: startRun_order_def Let_def)
  have u: "uint (word_of_int (?n * unit_multiplier u) :: 64 word) = ?n * unit_multiplier u"
    using big small by (intro uint_word_of_int_small) simp_all
  have val: "uint (ObjectSize (startRun_order args' now)) = ?n * unit_multiplier u"
    using os u by (simp only:)
  with big have "uint (ObjectSize (startRun_order args' now)) \<noteq> 0" by linarith
  then have "ObjectSize (startRun_order args' now) \<noteq> 0" by auto
  then have pos: "0 < ObjectSize (startRun_order args' now)" by (simp add: word_greater_zero_iff)
  have sel: "groups ! 1 = d # ds" "hd (groups ! 2) = u" using g by simp_all
  show ?thesis using pos val big unfolding sel by simp
qed

theorem validated_objectSize_positive_witness:
  "validateArguments default_args = (None, default_args\<lparr>SizeInBytes := 1048576\<rparr>) \<and>
   FindStringSubmatch (Size default_args) = Some [''1M'', ''1'', ''M''] \<and>
   decimal ([''1M'', ''1'', ''M''] ! 1) * unit_multiplier (hd ([''1M'', ''1'', ''M''] ! 2)) < 2 ^ 64 \<and>
   0 < ObjectSize (startRun_order (default_args\<lparr>SizeInBytes := 1048576\<rparr>) 0) \<and>
   uint (ObjectSize (startRun_order (default_args\<lparr>SizeInBytes := 1048576\<rparr>) 0)) = 1048576"
proof -
  have v: "validateArguments default_args = (None, default_args\<lparr>SizeInBytes := 1048576\<rparr>)"
    by code_simp
  have f: "FindStringSubmatch (Size default_args) = Some [''1M'', ''1'', ''M'']"
    by code_simp
  have d: "decimal ([''1M'', ''1'', ''M''] ! 1) * unit_multiplier (hd ([''1M'', ''1'', ''M''] ! 2)) = 1048576"
    by code_simp
  have s: "decimal ([''1M'', ''1'', ''M''] ! 1) * unit_multiplier (hd ([''1M'', ''1'', ''M''] ! 2)) < 2 ^ 64"
    unfolding d by simp
  show ?thesis using v f s validated_objectSize_positive [OF v f s, of 0] d by simp
qed

text \<open>
  Claim C10. The order has connection type \<open>s3\<close> and credentials with exactly the keys
  \<open>access_key\<close> and \<open>secret_key\<close> when \<open>args.S3\<close> is set; otherwise it has connection
  type \<open>rados\<close>, credentials with exactly the keys \<open>username\<close> and \<open>key\<close>, and the
  port left at zero.
\<close>

theorem startRun_connection_credentials: 
  "(S3 args \<longrightarrow>
      ConnectionType (startRun_order args now) = ''s3'' \<and>
      dom (Credentials (startRun_order args now)) = {''access_key'', ''secret_key''}) \<and>
   (\<not> S3 args \<longrightarrow>
      ConnectionType (startRun_order args now) = ''rados'' \<and>
      dom (Credentials (startRun_order args now)) = {''username'', ''key''} \<and>
      OrderPort (startRun_order args now) = 0)"
  by (auto simp: startRun_order_def zero_Order_def Let_def)

theorem startRun_connection_credentials_witness:
  "\<not> S3 default_args \<and> S3 (default_args\<lparr>S3 := True\<rparr>) \<and>
   ConnectionType (startRun_order default_args 0) = ''rados'' \<and>
   dom (Credentials (startRun_order default_args 0)) = {''username'', ''key''} \<and>
   OrderPort (startRun_order default_args 0) = 0 \<and>
   ConnectionType (startRun_order (default_args\<lparr>S3 := True\<rparr>) 0) = ''s3'' \<and>
   dom (Credentials (startRun_order (default_args\<lparr>S3 := True\<rparr>) 0)) = {''access_key'', ''secret_key''}"
  using startRun_connection_credentials [of default_args 0] startRun_connection_credentials [of "default_args\<lparr>S3 := True\<rparr>" 0]
  by (simp add: default_args_def)

subsection \<open>The size pattern\<close>

text \<open>
  Claim C9. The pattern is not anchored: \<open>validateArguments\<close> accepts every size that
  has a size token anywhere in it (\<open>10KB\<close>, \<open>x5M\<close>), and \<open>SizeInBytes\<close> is the number of
  the first match times 1024 for k and K, times 1048576 for m and M.

  \<open>strconv.Atoi\<close> stops at the largest \<open>int\<close>: for \<open>9223372036854775808k\<close> (2 to the
  63) the result is neither the product nor the product modulo 2 to the 64.
\<close>

theorem validateArguments_size_saturates_counterexample:
  "ports_in_range (default_args\<lparr>Size := ''9223372036854775808k''\<rparr>) \<and>
   size_token ''9223372036854775808k'' \<and>
   fst (validateArguments (default_args\<lparr>Size := ''9223372036854775808k''\<rparr>)) = None \<and>
   uint (SizeInBytes (snd (validateArguments (default_args\<lparr>Size := ''9223372036854775808k''\<rparr>))))
     \<noteq> decimal ''9223372036854775808'' * 1024 \<and>
   SizeInBytes (snd (validateArguments (default_args\<lparr>Size := ''9223372036854775808k''\<rparr>)))
     \<noteq> word_of_int (decimal ''9223372036854775808'') * 1024 \<and>
   SizeInBytes (snd (validateArguments (default_args\<lparr>Size := ''9223372036854775808k''\<rparr>)))
     = 18446744073709550592"
  by code_simp

text \<open>
  Claim C9 as amended: with both ports in range, \<open>validateArguments\<close> accepts every
  size that has a size token anywhere in it; when the token is the leftmost one and
  its number times the multiplier of its unit is below 2 to the 64, \<open>SizeInBytes\<close> is
  that product.
\<close>

theorem validateArguments_size_pattern:
  assumes "ports_in_range args" and "Size args = pre @ t @ post" and "size_token t"
  shows "fst (validateArguments args) = None \<and>
     ((\<forall>pre' t' post'. Size args = pre' @ t' @ post' \<and> size_token t' \<longrightarrow> length pre \<le> length pre') \<and>
      decimal (butlast t) * unit_multiplier (last t) < 2 ^ 64 \<longrightarrow>
        uint (SizeInBytes (snd (validateArguments args))) = decimal (butlast t) * unit_multiplier (last t))"
proof (intro conjI impI)
  have "FindStringSubmatch (Size args) \<noteq> None"
    using FindStringSubmatch_None [of "Size args" pre t post] assms(2,3) by blast
  then obtain groups where f: "FindStringSubmatch (Size args) = Some groups" by blast
  then obtain d ds u where g: "groups = [d # ds @ [u], d # ds, [u]]"
    and p: "is_nonzero_digit d" "list_all is_digit ds" "is_unit u"
    using FindStringSubmatch_Some by blast
  show "fst (validateArguments args) = None"
    using validateArguments_groups [OF assms(1) f [unfolded g] p] by simp
next
  assume both: "(\<forall>pre' t' post'. Size args = pre' @ t' @ post' \<and> size_token t' \<longrightarrow> length pre \<le> length pre') \<and>
      decimal (butlast t) * unit_multiplier (last t) < 2 ^ 64"
  then have left: "\<forall>pre' t' post'. Size args = pre' @ t' @ post' \<and> size_token t' \<longrightarrow> length pre \<le> length pre'"
    and small: "decimal (butlast t) * unit_multiplier (last t) < 2 ^ 64" by blast+
  from assms(3) obtain d ds u where t: "t = d # ds @ [u]"
    and p: "is_nonzero_digit d" "list_all is_digit ds" "is_unit u"
    using size_token_decompose by blast
  have f: "FindStringSubmatch (Size args) = Some [d # ds @ [u], d # ds, [u]]"
    using FindStringSubmatch_leftmost [OF assms(2,3) left] t by (simp add: butlast_append)
  have v: "validateArguments args =
          (None, args\<lparr>SizeInBytes := word_of_int (min (decimal (d # ds)) (2 ^ 63 - 1) * unit_multiplier u)\<rparr>)"
    using validateArguments_groups [OF assms(1) f p] .
  have n1: "1 \<le> decimal (d # ds)" using p(1,2) by (rule decimal_token_pos)
  have small': "decimal (d # ds) * unit_multiplier u < 2 ^ 64" using small t by (simp add: butlast_append)
  have mn: "min (decimal (d # ds)) (2 ^ 63 - 1) = decimal (d # ds)"
    and big: "1024 \<le> decimal (d # ds) * unit_multiplier u"
    using product_small [OF n1 small'] by simp_all
  have "uint (word_of_int (decimal (d # ds) * unit_multiplier u) :: 64 word) = decimal (d # ds) * unit_multiplier u"
    using big small' by (intro uint_word_of_int_small) simp_all
  then show "uint (SizeInBytes (snd (validateArguments args))) = decimal (butlast t) * unit_multiplier (last t)"
    using v mn t by (simp add: butlast_append)
qed

lemma leftmost_token_x5M:
  "\<forall>pre' t' post'. ''x5M'' = pre' @ t' @ post' \<and> size_token t' \<longrightarrow> length ''x'' \<le> length pre'"
proof (intro allI impI)
  fix pre' t' post' :: string
  assume a: "''x5M'' = pre' @ t' @ post' \<and> size_token t'"
  show "length ''x'' \<le> length pre'"
  proof (cases pre')
    case Nil
    from a have "t' \<noteq> []" by (auto simp: size_token_def)
    with a Nil have "hd t' = CHR ''x''" by (cases t') auto
    with a show ?thesis by (simp add: size_token_def is_nonzero_digit_def)
  next
    case (Cons c cs)
    then show ?thesis by simp
  qed
qed

theorem validateArguments_size_pattern_witness:
  "ports_in_range (default_args\<lparr>Size := ''x5M''\<rparr>) \<and>
   Size (default_args\<lparr>Size := ''x5M''\<rparr>) = ''x'' @ ''5M'' @ [] \<and> size_token ''5M'' \<and>
   decimal (butlast ''5M'') * unit_multiplier (last ''5M'') < 2 ^ 64 \<and>
   fst (validateArguments (default_args\<lparr>Size := ''x5M''\<rparr>)) = None \<and>
   uint (SizeInBytes (snd (validateArguments (default_args\<lparr>Size := ''x5M''\<rparr>)))) = 5242880"
proof -
  let ?a = "default_args\<lparr>Size := ''x5M''\<rparr>"
  have p: "ports_in_range ?a" by (simp add: ports_in_range_def default_args_def)
  have s: "Size ?a = ''x'' @ ''5M'' @ []" by simp
  have t: "size_token ''5M''" by (simp add: size_token_def is_nonzero_digit_def is_unit_def)
  have l: "\<forall>pre' t' post'. Size ?a = pre' @ t' @ post' \<and> size_token t' \<longrightarrow> length ''x'' \<le> length pre'"
    using leftmost_token_x5M by simp
  have d: "decimal (butlast ''5M'') * unit_multiplier (last ''5M'') = 5242880"
    by (simp add: decimal_def digit_value_def unit_multiplier_def)
  have sm: "decimal (butlast ''5M'') * unit_multiplier (last ''5M'') < 2 ^ 64"
    unfolding d by simp
  from validateArguments_size_pattern [OF p s t]
  have acc: "fst (validateArguments ?a) = None"
    and imp: "(\<forall>pre' t' post'. Size ?a = pre' @ t' @ post' \<and> size_token t' \<longrightarrow> length ''x'' \<le> length pre') \<and>
        decimal (butlast ''5M'') * unit_multiplier (last ''5M'') < 2 ^ 64 \<longrightarrow>
           uint (SizeInBytes (snd (validateArguments ?a))) = decimal (butlast ''5M'') * unit_multiplier (last ''5M'')"
    by blast+
  from imp l sm have "uint (SizeInBytes (snd (validateArguments ?a))) = decimal (butlast ''5M'') * unit_multiplier (last ''5M'')"
    by blast
  then have val: "uint (SizeInBytes (snd (validateArguments ?a))) = 5242880"
    by (simp only: d)
  from p s t sm acc val show ?thesis by blast
qed

subsection \<open>Reporting after a failed run\<close>

text \<open>
  Claim C6. When \<open>Manager.Run\<close> returns an error, \<open>startRun\<close> still encodes the report
  that was assembled and writes it (to the JSON output file when one is configured):
  it prints the error and goes on as after a run without error.
\<close>

theorem startRun_reports_after_failed_run:
  assumes "manager_Run rt (setArguments rt (startRun_job args now r0) args) = (Some e, j1)"
  shows "startRun rt r0 now args =
           PrintError ''Error running job: %v\<newline>'' e #
             startRun (rt\<lparr>manager_Run := (\<lambda>j. (None, j1))\<rparr>) r0 now args \<and>
         (\<forall>b. MarshalIndent rt (report j1) = Inr b \<and> JsonOutput args \<noteq> [] \<longrightarrow>
            (\<exists>rest. startRun rt r0 now args =
               [PrintError ''Error running job: %v\<newline>'' e, WriteFile (JsonOutput args) b 420] @ rest))"
  using assms
  by (auto simp: startRun_def dieOnError_def Let_def split: sum.splits option.splits prod.splits)

theorem startRun_reports_after_failed_run_witness:
  "manager_Run example_runtime
     (setArguments example_runtime (startRun_job (default_args\<lparr>JsonOutput := ''out.json''\<rparr>) 0 []) (default_args\<lparr>JsonOutput := ''out.json''\<rparr>))
     = (Some (OtherError ''no foreman replied''),
        (startRun_job (default_args\<lparr>JsonOutput := ''out.json''\<rparr>) 0 [])\<lparr>report := ''partial''\<rparr>) \<and>
   MarshalIndent example_runtime ''partial'' = Inr [112, 97, 114, 116, 105, 97, 108] \<and>
   JsonOutput (default_args\<lparr>JsonOutput := ''out.json''\<rparr>) \<noteq> [] \<and>
   startRun example_runtime [] 0 (default_args\<lparr>JsonOutput := ''out.json''\<rparr>) =
     [PrintError ''Error running job: %v\<newline>'' (OtherError ''no foreman replied''),
      WriteFile ''out.json'' [112, 97, 114, 116, 105, 97, 108] 420,
      Print ''Done\<newline>'']"
proof -
  let ?a = "default_args\<lparr>JsonOutput := ''out.json''\<rparr>"
  let ?j1 = "(startRun_job ?a 0 [])\<lparr>report := ''partial''\<rparr>"
  have r: "manager_Run example_runtime (setArguments example_runtime (startRun_job ?a 0 []) ?a)
     = (Some (OtherError ''no foreman replied''), ?j1)"
    by (simp add: example_runtime_def)
  have m: "MarshalIndent example_runtime ''partial'' = Inr [112, 97, 114, 116, 105, 97, 108]"
    by (simp add: example_runtime_def)
  have j: "JsonOutput ?a \<noteq> []" by simp
  have ok: "startRun (example_runtime\<lparr>manager_Run := (\<lambda>j. (None, ?j1))\<rparr>) [] 0 ?a
      = [WriteFile ''out.json'' [112, 97, 114, 116, 105, 97, 108] 420, Print ''Done\<newline>'']"
    by (simp add: startRun_def example_runtime_def dieOnError_def Let_def)
  from startRun_reports_after_failed_run [OF r] ok
  have "startRun example_runtime [] 0 ?a =
     [PrintError ''Error running job: %v\<newline>'' (OtherError ''no foreman replied''),
      WriteFile ''out.json'' [112, 97, 114, 116, 105, 97, 108] 420,
      Print ''Done\<newline>'']" by simp
  with r m j show ?thesis by blast
qed

end
